theory Spec2Isabelle
  imports Complex_Main "HOL-Library.Word" "HOL-Library.Multiset"
begin

unbundle bit_operations_syntax

section \<open>Data model of the dependency graph\<close>

text \<open>
  An operation node is referred to by its position in \<open>graph->operations\<close>. The source end
  of a relation may be a node of another type (a time source, say): the readiness count
  tests \<open>rel->from->type == DEPSNODE_TYPE_OPERATION\<close>. The target end is always cast to an
  operation node by the scheduling code.
\<close>

datatype depsnode = Operation nat | Non_operation

text \<open>\<open>DepsRelation\<close>: \<open>cyclic\<close> stands for \<open>(rel->flag & DEPSREL_FLAG_CYCLIC) != 0\<close>.\<close>

record relation =
  rel_from :: depsnode
  rel_to :: nat
  cyclic :: bool

text \<open>
  \<open>OperationDepsNode\<close>. \<open>needs_update\<close> stands for
  \<open>(node->flag & DEPSOP_FLAG_NEEDS_UPDATE) != 0\<close>, \<open>owner_layers\<close> for
  \<open>node->owner->owner->layers\<close> (a C \<open>int\<close>, used only under \<open>&\<close>), \<open>evaluate\<close> tells whether
  the callback \<open>node->evaluate\<close> is set, \<open>num_links_pending\<close> is the \<open>uint32_t\<close> counter and
  \<open>done_tag\<close> the field \<open>node->done\<close>.
\<close>

record op_node =
  needs_update :: bool
  owner_layers :: "32 word"
  evaluate :: bool
  inlinks :: "relation list"
  outlinks :: "relation list"
  num_links_pending :: "32 word"
  scheduled :: bool
  done_tag :: int

text \<open>
  Modelled from the spec: \<open>is_noop\<close> is declared in a header that is not part of the
  sources at hand; the spec describes it as true for nodes carrying no executable work.
\<close>

definition is_noop :: "op_node \<Rightarrow> bool" where
  "is_noop node \<longleftrightarrow> \<not> evaluate node"

record time_source_node =
  cfra :: real

text \<open>
  \<open>Depsgraph\<close>. \<open>time_source\<close> is what \<open>graph->find_time_source()\<close> returns: \<open>None\<close> is the
  null pointer.
\<close>

record depsgraph =
  operations :: "op_node list"
  entry_tags :: "nat set"
  time_source :: "time_source_node option"
  graph_layers :: "32 word"

record evaluation_context =
  mode :: int
  ctime :: real

definition DEG_evaluation_context_init :: "evaluation_context \<Rightarrow> int \<Rightarrow> evaluation_context" where
  "DEG_evaluation_context_init eval_ctx m = eval_ctx\<lparr>mode := m\<rparr>"

definition DEG_needs_eval :: "depsgraph \<Rightarrow> bool" where
  "DEG_needs_eval graph \<longleftrightarrow> entry_tags graph \<noteq> {}"

text \<open>
  The test both the readiness count and the scheduler apply to a node:
  \<open>(flag & DEPSOP_FLAG_NEEDS_UPDATE) != 0 && (id_layers & layers) != 0\<close>.
\<close>

definition in_update :: "32 word \<Rightarrow> op_node \<Rightarrow> bool" where
  "in_update layers node \<longleftrightarrow> needs_update node \<and> owner_layers node AND layers \<noteq> 0"

section \<open>The readiness pre-pass\<close>

text \<open>The test of one incoming relation in \<open>calculate_pending_func\<close>.\<close>

definition counts_as_pending :: "32 word \<Rightarrow> op_node list \<Rightarrow> relation \<Rightarrow> bool" where
  "counts_as_pending layers ops rel =
     (case rel_from rel of
        Operation p \<Rightarrow> \<not> cyclic rel \<and> owner_layers (ops ! p) AND layers \<noteq> 0 \<and> needs_update (ops ! p)
      | Non_operation \<Rightarrow> False)"

definition count_link :: "32 word \<Rightarrow> op_node list \<Rightarrow> relation \<Rightarrow> op_node \<Rightarrow> op_node" where
  "count_link layers ops rel node =
     (if counts_as_pending layers ops rel
      then node\<lparr>num_links_pending := num_links_pending node + 1\<rparr> else node)"

definition calculate_pending_func :: "32 word \<Rightarrow> op_node list \<Rightarrow> nat \<Rightarrow> op_node list" where
  "calculate_pending_func layers ops i =
     (let node = (ops ! i)\<lparr>num_links_pending := 0, scheduled := False\<rparr> in
      if owner_layers node AND layers \<noteq> 0 \<and> needs_update node
      then ops[i := fold (count_link layers ops) (inlinks node) node]
      else ops[i := node])"

text \<open>
  \<open>BLI_task_parallel_range\<close> calls the function once for every index of the range, each
  call writing to its own node only. \<open>calculate_pending_in_order\<close> runs the calls in a
  given order of the indices; \<open>calculate_pending_parents\<close> is the run in increasing order
  (the single-threaded one).
\<close>

definition calculate_pending_in_order :: "nat list \<Rightarrow> 32 word \<Rightarrow> op_node list \<Rightarrow> op_node list" where
  "calculate_pending_in_order order layers ops = fold (\<lambda>i ops'. calculate_pending_func layers ops' i) order ops"

definition calculate_pending_parents :: "32 word \<Rightarrow> op_node list \<Rightarrow> op_node list" where
  "calculate_pending_parents layers ops = calculate_pending_in_order [0..<length ops] layers ops"

section \<open>Scheduling as interleaved atomic steps\<close>

text \<open>
  The scheduling functions run on the calling thread and on the workers of the task pool
  at once, and talk through \<open>num_links_pending\<close> and \<open>scheduled\<close> only. Each activity (the
  seeding loop of the caller, or one task of the pool) is a stack of frames; a frame is a
  point of the code between two accesses to those shared fields. One step runs the top
  frame of one activity: it makes at most one access to a shared field, replaces the frame
  by its continuation, and may push a task to the pool.
\<close>

datatype frame =
    Schedule_graph "nat list"
  | Schedule_node nat bool
  | Schedule_node_read nat
  | Schedule_node_claim nat
  | Schedule_children "relation list"
  | Task_entry nat
  | Task_evaluate nat
  | Task_completed nat
  | Task_outlinks nat
  | Chain_sub nat
  | Chain_read nat
  | Chain_claim nat

text \<open>
  What a pass lets an observer see: a push to the pool, and the two debug hooks around the
  call of a node's work function.
\<close>

datatype event = Pushed nat | Started nat | Completed nat

record effect =
  e_nodes :: "op_node list"
  e_frames :: "frame list"
  e_pushed :: "nat list"
  e_events :: "event list"
  e_abort :: bool

definition proceed :: "op_node list \<Rightarrow> frame list \<Rightarrow> effect" where
  "proceed ops fs = \<lparr>e_nodes = ops, e_frames = fs, e_pushed = [], e_events = [], e_abort = False\<rparr>"

definition emit :: "op_node list \<Rightarrow> event \<Rightarrow> frame list \<Rightarrow> effect" where
  "emit ops ev fs = \<lparr>e_nodes = ops, e_frames = fs, e_pushed = [], e_events = [ev], e_abort = False\<rparr>"

text \<open>A failed \<open>BLI_assert\<close>, or the use of a node that is not one of the graph's.\<close>

definition assert_fail :: "op_node list \<Rightarrow> effect" where
  "assert_fail ops = \<lparr>e_nodes = ops, e_frames = [], e_pushed = [], e_events = [], e_abort = True\<rparr>"

definition atomic_sub_pending :: "op_node list \<Rightarrow> nat \<Rightarrow> op_node list" where
  "atomic_sub_pending ops n = ops[n := (ops ! n)\<lparr>num_links_pending := num_links_pending (ops ! n) - 1\<rparr>]"

definition atomic_or_scheduled :: "op_node list \<Rightarrow> nat \<Rightarrow> op_node list" where
  "atomic_or_scheduled ops n = ops[n := (ops ! n)\<lparr>scheduled := True\<rparr>]"

text \<open>\<open>schedule_graph\<close>: one turn of the loop over the graph's operations.\<close>

definition schedule_graph :: "op_node list \<Rightarrow> nat list \<Rightarrow> effect" where
  "schedule_graph ops ns =
     (case ns of
        [] \<Rightarrow> proceed ops []
      | n # ns' \<Rightarrow> proceed ops [Schedule_node n False, Schedule_graph ns'])"

text \<open>\<open>schedule_node\<close>, up to and including the decrement.\<close>

definition schedule_node :: "32 word \<Rightarrow> op_node list \<Rightarrow> nat \<Rightarrow> bool \<Rightarrow> effect" where
  "schedule_node layers ops n dec_parents =
     (let node = ops ! n in
      if needs_update node \<and> owner_layers node AND layers \<noteq> 0 then
        if dec_parents then
          if num_links_pending node = 0 then assert_fail ops
          else proceed (atomic_sub_pending ops n) [Schedule_node_read n]
        else proceed ops [Schedule_node_read n]
      else proceed ops [])"

text \<open>\<open>schedule_node\<close>: the test \<open>node->num_links_pending == 0\<close>.\<close>

definition schedule_node_read :: "op_node list \<Rightarrow> nat \<Rightarrow> effect" where
  "schedule_node_read ops n =
     (if num_links_pending (ops ! n) = 0 then proceed ops [Schedule_node_claim n]
      else proceed ops [])"

text \<open>
  \<open>schedule_node\<close>: the fetch-and-or of \<open>scheduled\<close> and what follows it (a NOOP's children
  are scheduled by the same thread, any other node is pushed to the pool).
\<close>

definition schedule_node_claim :: "op_node list \<Rightarrow> nat \<Rightarrow> effect" where
  "schedule_node_claim ops n =
     (let is_scheduled = scheduled (ops ! n); ops' = atomic_or_scheduled ops n in
      if \<not> is_scheduled then
        if is_noop (ops ! n) then proceed ops' [Schedule_children (outlinks (ops ! n))]
        else \<lparr>e_nodes = ops', e_frames = [], e_pushed = [n], e_events = [Pushed n], e_abort = False\<rparr>
      else proceed ops' [])"

text \<open>\<open>schedule_children\<close>: one turn of the loop over the outgoing relations.\<close>

definition schedule_children :: "op_node list \<Rightarrow> relation list \<Rightarrow> effect" where
  "schedule_children ops rels =
     (case rels of
        [] \<Rightarrow> proceed ops []
      | rel # rels' \<Rightarrow>
          if scheduled (ops ! rel_to rel) then proceed ops [Schedule_children rels']
          else proceed ops [Schedule_node (rel_to rel) (\<not> cyclic rel), Schedule_children rels'])"

text \<open>\<open>deg_task_run_func\<close>: the two assertions before the loop.\<close>

definition deg_task_run_func :: "op_node list \<Rightarrow> nat \<Rightarrow> effect" where
  "deg_task_run_func ops n =
     (if is_noop (ops ! n) \<or> \<not> evaluate (ops ! n) then assert_fail ops
      else proceed ops [Task_evaluate n])"

text \<open>The head of the loop: the call of the work function, when there is one.\<close>

definition task_evaluate :: "op_node list \<Rightarrow> nat \<Rightarrow> effect" where
  "task_evaluate ops n =
     (if evaluate (ops ! n) then emit ops (Started n) [Task_completed n]
      else proceed ops [Task_outlinks n])"

definition task_completed :: "op_node list \<Rightarrow> nat \<Rightarrow> effect" where
  "task_completed ops n = emit ops (Completed n) [Task_outlinks n]"

text \<open>
  The test of the outgoing relations: with one relation, the checks that come before the
  child's counter is touched; otherwise the fan-out.
\<close>

definition task_outlinks :: "32 word \<Rightarrow> op_node list \<Rightarrow> nat \<Rightarrow> effect" where
  "task_outlinks layers ops n =
     (let node = ops ! n in
      if length (outlinks node) = 1 then
        let rel = outlinks node ! 0; child = ops ! rel_to rel in
        if \<not> scheduled child then
          if \<not> (needs_update child \<and> owner_layers child AND layers \<noteq> 0) then proceed ops []
          else if \<not> cyclic rel then proceed ops [Chain_sub (rel_to rel)]
          else proceed ops [Chain_read (rel_to rel)]
        else proceed ops []
      else proceed ops [Schedule_children (outlinks node)])"

definition chain_sub :: "op_node list \<Rightarrow> nat \<Rightarrow> effect" where
  "chain_sub ops child =
     (if num_links_pending (ops ! child) = 0 then assert_fail ops
      else proceed (atomic_sub_pending ops child) [Chain_read child])"

definition chain_read :: "op_node list \<Rightarrow> nat \<Rightarrow> effect" where
  "chain_read ops child =
     (if num_links_pending (ops ! child) = 0 then proceed ops [Chain_claim child]
      else proceed ops [])"

definition chain_claim :: "op_node list \<Rightarrow> nat \<Rightarrow> effect" where
  "chain_claim ops child =
     (let is_scheduled = scheduled (ops ! child); ops' = atomic_or_scheduled ops child in
      if \<not> is_scheduled then proceed ops' [Task_evaluate child]
      else proceed ops' [])"

text \<open>
  A frame can run when the nodes it is about to read are nodes of the graph (in the
  source they are pointers into the graph).
\<close>

fun frame_valid :: "op_node list \<Rightarrow> frame \<Rightarrow> bool" where
  "frame_valid ops (Schedule_graph ns) = True"
| "frame_valid ops (Schedule_node n d) = (n < length ops)"
| "frame_valid ops (Schedule_node_read n) = (n < length ops)"
| "frame_valid ops (Schedule_node_claim n) = (n < length ops)"
| "frame_valid ops (Schedule_children rels) = (case rels of [] \<Rightarrow> True | rel # _ \<Rightarrow> rel_to rel < length ops)"
| "frame_valid ops (Task_entry n) = (n < length ops)"
| "frame_valid ops (Task_evaluate n) = (n < length ops)"
| "frame_valid ops (Task_completed n) = (n < length ops)"
| "frame_valid ops (Task_outlinks n) =
     (n < length ops \<and> (case outlinks (ops ! n) of [rel] \<Rightarrow> rel_to rel < length ops | _ \<Rightarrow> True))"
| "frame_valid ops (Chain_sub n) = (n < length ops)"
| "frame_valid ops (Chain_read n) = (n < length ops)"
| "frame_valid ops (Chain_claim n) = (n < length ops)"

fun run_frame :: "32 word \<Rightarrow> op_node list \<Rightarrow> frame \<Rightarrow> effect" where
  "run_frame layers ops (Schedule_graph ns) = schedule_graph ops ns"
| "run_frame layers ops (Schedule_node n d) = schedule_node layers ops n d"
| "run_frame layers ops (Schedule_node_read n) = schedule_node_read ops n"
| "run_frame layers ops (Schedule_node_claim n) = schedule_node_claim ops n"
| "run_frame layers ops (Schedule_children rels) = schedule_children ops rels"
| "run_frame layers ops (Task_entry n) = deg_task_run_func ops n"
| "run_frame layers ops (Task_evaluate n) = task_evaluate ops n"
| "run_frame layers ops (Task_completed n) = task_completed ops n"
| "run_frame layers ops (Task_outlinks n) = task_outlinks layers ops n"
| "run_frame layers ops (Chain_sub n) = chain_sub ops n"
| "run_frame layers ops (Chain_read n) = chain_read ops n"
| "run_frame layers ops (Chain_claim n) = chain_claim ops n"

definition exec_frame :: "32 word \<Rightarrow> op_node list \<Rightarrow> frame \<Rightarrow> effect" where
  "exec_frame layers ops f = (if frame_valid ops f then run_frame layers ops f else assert_fail ops)"

text \<open>
  The state of a pass while it schedules: the nodes, the layer mask of
  \<open>DepsgraphEvalState\<close>, the activities (the first is the caller's, each push adds one),
  the events so far, and whether the pass was aborted.
\<close>

record eval_state =
  nodes :: "op_node list"
  layers :: "32 word"
  tasks :: "frame list list"
  trace :: "event list"
  aborted :: bool

definition enabled :: "eval_state \<Rightarrow> nat \<Rightarrow> bool" where
  "enabled s i \<longleftrightarrow> \<not> aborted s \<and> i < length (tasks s) \<and> tasks s ! i \<noteq> []"

definition step :: "eval_state \<Rightarrow> nat \<Rightarrow> eval_state" where
  "step s i =
     (if enabled s i then
        let e = exec_frame (layers s) (nodes s) (hd (tasks s ! i)) in
        s\<lparr>nodes := e_nodes e,
          tasks := (tasks s)[i := e_frames e @ tl (tasks s ! i)] @ map (\<lambda>n. [Task_entry n]) (e_pushed e),
          trace := trace s @ e_events e,
          aborted := e_abort e\<rparr>
      else s)"

definition drained :: "eval_state \<Rightarrow> bool" where
  "drained s \<longleftrightarrow> aborted s \<or> (\<forall>t \<in> set (tasks s). t = [])"

text \<open>The activity that moves next: the one the schedule asks for when it can move, the
  first that can otherwise.\<close>

definition first_enabled :: "eval_state \<Rightarrow> nat" where
  "first_enabled s = hd (filter (enabled s) [0..<length (tasks s)])"

definition pick_next :: "eval_state \<Rightarrow> nat list \<Rightarrow> nat" where
  "pick_next s sched = (case sched of [] \<Rightarrow> first_enabled s | i # _ \<Rightarrow> if enabled s i then i else first_enabled s)"

definition run :: "nat list \<Rightarrow> eval_state \<Rightarrow> eval_state" where
  "run sched s = fold (\<lambda>i s'. step s' i) sched s"

definition schedule_start :: "32 word \<Rightarrow> op_node list \<Rightarrow> eval_state" where
  "schedule_start ls ops =
     \<lparr>nodes = ops, layers = ls, tasks = [[Schedule_graph [0..<length ops]]], trace = [], aborted = False\<rparr>"

section \<open>Every pass comes to an end\<close>

text \<open>
  Each step either aborts the pass, or claims a node that was not claimed, or leaves the
  claims alone and makes the frames lighter: the weight of a frame bounds the number of
  steps it can take before the next claim.
\<close>

definition unclaimed :: "op_node list \<Rightarrow> nat" where
  "unclaimed ops = sum_list (map (\<lambda>x. if scheduled x then 0 else 1) ops)"

fun frame_weight :: "op_node list \<Rightarrow> frame \<Rightarrow> nat" where
  "frame_weight ops (Schedule_graph ns) = 5 * length ns + 1"
| "frame_weight ops (Schedule_node n d) = 3"
| "frame_weight ops (Schedule_node_read n) = 2"
| "frame_weight ops (Schedule_node_claim n) = 1"
| "frame_weight ops (Schedule_children rels) = 4 * length rels + 1"
| "frame_weight ops (Task_entry n) = 4 * length (outlinks (ops ! n)) + 7"
| "frame_weight ops (Task_evaluate n) = 4 * length (outlinks (ops ! n)) + 6"
| "frame_weight ops (Task_completed n) = 4 * length (outlinks (ops ! n)) + 5"
| "frame_weight ops (Task_outlinks n) = 4 * length (outlinks (ops ! n)) + 4"
| "frame_weight ops (Chain_sub n) = 3"
| "frame_weight ops (Chain_read n) = 2"
| "frame_weight ops (Chain_claim n) = 1"

definition stack_weight :: "op_node list \<Rightarrow> frame list \<Rightarrow> nat" where
  "stack_weight ops fs = sum_list (map (frame_weight ops) fs)"

definition total_weight :: "eval_state \<Rightarrow> nat" where
  "total_weight s = sum_list (map (stack_weight (nodes s)) (tasks s))"

definition rank :: "eval_state \<Rightarrow> nat \<times> nat \<times> nat" where
  "rank s = (if aborted s then 0 else 1, unclaimed (nodes s), total_weight s)"

definition pass_order :: "(eval_state \<times> eval_state) set" where
  "pass_order = inv_image (less_than <*lex*> less_than <*lex*> less_than) rank"

lemma wf_pass_order: "wf pass_order"
  unfolding pass_order_def by (intro wf_inv_image wf_lex_prod wf_less_than)

lemma outlinks_atomic_sub [simp]: "outlinks (atomic_sub_pending ops n ! m) = outlinks (ops ! m)"
  by (cases "n < length ops"; cases "m = n") (simp_all add: atomic_sub_pending_def not_less list_update_beyond)

lemma outlinks_atomic_or [simp]: "outlinks (atomic_or_scheduled ops n ! m) = outlinks (ops ! m)"
  by (cases "n < length ops"; cases "m = n") (simp_all add: atomic_or_scheduled_def not_less list_update_beyond)

lemma frame_weight_atomic_sub [simp]: "frame_weight (atomic_sub_pending ops n) f = frame_weight ops f"
  by (cases f) simp_all

lemma frame_weight_atomic_or [simp]: "frame_weight (atomic_or_scheduled ops n) f = frame_weight ops f"
  by (cases f) simp_all

lemma unclaimed_update:
  assumes "n < length ops"
  shows "unclaimed (ops[n := x]) =
    unclaimed ops + (if scheduled x then 0 else 1) - (if scheduled (ops ! n) then 0 else 1)"
  using assms by (simp add: unclaimed_def map_update sum_list_update)

lemma unclaimed_pos: "n < length ops \<Longrightarrow> \<not> scheduled (ops ! n) \<Longrightarrow> 0 < unclaimed ops"
  unfolding unclaimed_def
  by (induction ops arbitrary: n) (auto simp: nth_Cons split: nat.splits)

lemma unclaimed_atomic_sub [simp]: "unclaimed (atomic_sub_pending ops n) = unclaimed ops"
  by (cases "n < length ops") (simp_all add: atomic_sub_pending_def unclaimed_update not_less list_update_beyond)

lemma unclaimed_atomic_or_already:
  "scheduled (ops ! n) \<Longrightarrow> unclaimed (atomic_or_scheduled ops n) = unclaimed ops"
  by (cases "n < length ops") (simp_all add: atomic_or_scheduled_def unclaimed_update not_less list_update_beyond)

lemma unclaimed_atomic_or_claim:
  "n < length ops \<Longrightarrow> \<not> scheduled (ops ! n) \<Longrightarrow> unclaimed (atomic_or_scheduled ops n) < unclaimed ops"
  using unclaimed_pos [of n ops] by (simp add: atomic_or_scheduled_def unclaimed_update)

definition effect_weight :: "effect \<Rightarrow> nat" where
  "effect_weight e = stack_weight (e_nodes e) (e_frames e) + stack_weight (e_nodes e) (map Task_entry (e_pushed e))"

lemma exec_frame_decreases:
  "e_abort (exec_frame ls ops f) \<or>
   unclaimed (e_nodes (exec_frame ls ops f)) < unclaimed ops \<or>
   (unclaimed (e_nodes (exec_frame ls ops f)) = unclaimed ops \<and>
    effect_weight (exec_frame ls ops f) < frame_weight ops f)"
proof (cases "frame_valid ops f")
  case False
  then show ?thesis by (simp add: exec_frame_def assert_fail_def)
next
  case True
  then show ?thesis
  proof (cases f)
    case (Schedule_graph ns)
    then show ?thesis using True
      by (simp add: exec_frame_def schedule_graph_def proceed_def effect_weight_def stack_weight_def split: list.splits)
  next
    case (Schedule_node n d)
    then show ?thesis using True
      by (simp add: exec_frame_def schedule_node_def proceed_def assert_fail_def effect_weight_def stack_weight_def Let_def)
  next
    case (Schedule_node_read n)
    then show ?thesis using True
      by (simp add: exec_frame_def schedule_node_read_def proceed_def effect_weight_def stack_weight_def)
  next
    case (Schedule_node_claim n)
    then show ?thesis using True
      by (simp add: exec_frame_def schedule_node_claim_def proceed_def effect_weight_def stack_weight_def Let_def
          unclaimed_atomic_or_already unclaimed_atomic_or_claim)
  next
    case (Schedule_children rels)
    then show ?thesis using True
      by (simp add: exec_frame_def schedule_children_def proceed_def effect_weight_def stack_weight_def split: list.splits)
  next
    case (Task_entry n)
    then show ?thesis using True
      by (simp add: exec_frame_def deg_task_run_func_def proceed_def assert_fail_def effect_weight_def stack_weight_def)
  next
    case (Task_evaluate n)
    then show ?thesis using True
      by (simp add: exec_frame_def task_evaluate_def proceed_def emit_def effect_weight_def stack_weight_def)
  next
    case (Task_completed n)
    then show ?thesis using True
      by (simp add: exec_frame_def task_completed_def emit_def effect_weight_def stack_weight_def)
  next
    case (Task_outlinks n)
    then show ?thesis using True
      by (simp add: exec_frame_def task_outlinks_def proceed_def effect_weight_def stack_weight_def Let_def)
  next
    case (Chain_sub n)
    then show ?thesis using True
      by (simp add: exec_frame_def chain_sub_def proceed_def assert_fail_def effect_weight_def stack_weight_def)
  next
    case (Chain_read n)
    then show ?thesis using True
      by (simp add: exec_frame_def chain_read_def proceed_def effect_weight_def stack_weight_def)
  next
    case (Chain_claim n)
    then show ?thesis using True
      by (simp add: exec_frame_def chain_claim_def proceed_def effect_weight_def stack_weight_def Let_def
          unclaimed_atomic_or_already unclaimed_atomic_or_claim)
  qed
qed

lemma frame_weight_exec [simp]: "frame_weight (e_nodes (exec_frame ls ops f)) g = frame_weight ops g"
  by (cases f)
    (simp_all add: exec_frame_def assert_fail_def proceed_def emit_def schedule_graph_def schedule_node_def
      schedule_node_read_def schedule_node_claim_def schedule_children_def deg_task_run_func_def
      task_evaluate_def task_completed_def task_outlinks_def chain_sub_def chain_read_def chain_claim_def
      Let_def split: list.splits)


lemma frame_weight_exec_fun: "frame_weight (e_nodes (exec_frame ls ops f)) = frame_weight ops"
  by (rule ext) simp

lemma stack_weight_exec [simp]: "stack_weight (e_nodes (exec_frame ls ops f)) = stack_weight ops"
  by (rule ext) (simp add: stack_weight_def frame_weight_exec_fun)

lemma sum_list_map_update:
  "i < length xs \<Longrightarrow> sum_list (map g (xs[i := y])) + g (xs ! i) = sum_list (map g xs) + (g y :: nat)"
  by (induction xs arbitrary: i) (auto simp: nth_Cons split: nat.splits)

lemma step_decreases:
  assumes "enabled s i"
  shows "(step s i, s) \<in> pass_order"
proof -
  obtain f rest where top: "tasks s ! i = f # rest"
    using assms by (cases "tasks s ! i") (auto simp: enabled_def)
  define e where "e = exec_frame (layers s) (nodes s) f"
  have i: "i < length (tasks s)" and na: "\<not> aborted s"
    using assms by (auto simp: enabled_def)
  have st: "step s i = s\<lparr>nodes := e_nodes e,
      tasks := (tasks s)[i := e_frames e @ rest] @ map (\<lambda>n. [Task_entry n]) (e_pushed e),
      trace := trace s @ e_events e, aborted := e_abort e\<rparr>"
    using assms top by (simp add: step_def e_def Let_def)
  have tw: "total_weight (step s i) + frame_weight (nodes s) f = total_weight s + effect_weight e"
  proof -
    have "sum_list (map (stack_weight (nodes s)) ((tasks s)[i := e_frames e @ rest])) + stack_weight (nodes s) (f # rest)
        = sum_list (map (stack_weight (nodes s)) (tasks s)) + stack_weight (nodes s) (e_frames e @ rest)"
      using sum_list_map_update [OF i, of "stack_weight (nodes s)" "e_frames e @ rest"] top by simp
    moreover have "sum_list (map (stack_weight (nodes s)) (map (\<lambda>n. [Task_entry n]) (e_pushed e)))
        = stack_weight (nodes s) (map Task_entry (e_pushed e))"
      by (induction "e_pushed e") (simp_all add: stack_weight_def comp_def)
    ultimately show ?thesis
      unfolding st total_weight_def effect_weight_def e_def
      by (simp add: stack_weight_def frame_weight_exec_fun)
  qed
  from exec_frame_decreases [of "layers s" "nodes s" f]
  consider "e_abort e" | "unclaimed (e_nodes e) < unclaimed (nodes s)"
    | "unclaimed (e_nodes e) = unclaimed (nodes s)" "effect_weight e < frame_weight (nodes s) f"
    unfolding e_def by blast
  then show ?thesis
  proof cases
    case 1
    then show ?thesis using na by (simp add: pass_order_def rank_def st)
  next
    case 2
    then show ?thesis using na by (simp add: pass_order_def rank_def st)
  next
    case 3
    then have "total_weight (step s i) < total_weight s" using tw by linarith
    then show ?thesis using na 3 by (simp add: pass_order_def rank_def st)
  qed
qed

lemma first_enabled_enabled:
  assumes "\<not> drained s"
  shows "enabled s (first_enabled s)"
proof -
  from assms obtain t where "t \<in> set (tasks s)" "t \<noteq> []" "\<not> aborted s"
    by (auto simp: drained_def)
  then obtain i where "i < length (tasks s)" "tasks s ! i \<noteq> []"
    by (auto simp: in_set_conv_nth)
  then have "enabled s i"
    using \<open>\<not> aborted s\<close> by (simp add: enabled_def)
  then have "filter (enabled s) [0..<length (tasks s)] \<noteq> []"
    using \<open>i < length (tasks s)\<close> by (auto simp: filter_empty_conv)
  then have "hd (filter (enabled s) [0..<length (tasks s)]) \<in> set (filter (enabled s) [0..<length (tasks s)])"
    by (rule hd_in_set)
  then show ?thesis by (simp add: first_enabled_def)
qed

lemma pick_next_enabled: "\<not> drained s \<Longrightarrow> enabled s (pick_next s sched)"
  by (simp add: pick_next_def first_enabled_enabled split: list.splits)

text \<open>
  \<open>BLI_task_pool_work_and_wait\<close> returns when no activity is left to run. \<open>drain\<close> runs the
  activities, interleaved as the schedule says, until then.
\<close>

function drain :: "nat list \<Rightarrow> eval_state \<Rightarrow> eval_state" where
  "drain sched s = (if drained s then s else drain (tl sched) (step s (pick_next s sched)))"
  by pat_completeness auto
termination
  by (relation "inv_image pass_order snd")
    (simp_all add: wf_pass_order step_decreases pick_next_enabled)

declare drain.simps [simp del]

text \<open>The states a pass can be in, under any interleaving of its activities.\<close>

inductive_set reach :: "eval_state \<Rightarrow> eval_state set" for s0 :: eval_state where
  reach_start: "s0 \<in> reach s0"
| reach_step: "s \<in> reach s0 \<Longrightarrow> enabled s i \<Longrightarrow> step s i \<in> reach s0"

lemma drain_reach: "s \<in> reach s0 \<Longrightarrow> drain sched s \<in> reach s0"
proof (induction sched s rule: drain.induct)
  case (1 sched s)
  show ?case
  proof (cases "drained s")
    case True
    then show ?thesis using 1 by (simp add: drain.simps)
  next
    case False
    then have "step s (pick_next s sched) \<in> reach s0"
      using 1(2) by (intro reach_step pick_next_enabled)
    then show ?thesis using 1(1) False by (simp add: drain.simps)
  qed
qed

lemma drain_drained: "drained (drain sched s)"
  by (induction sched s rule: drain.induct) (simp add: drain.simps)

lemma step_not_enabled: "\<not> enabled s i \<Longrightarrow> step s i = s"
  by (simp add: step_def)

lemma run_reach: "s \<in> reach s0 \<Longrightarrow> run sched s \<in> reach s0"
proof (induction sched arbitrary: s)
  case Nil
  then show ?case by (simp add: run_def)
next
  case (Cons i sched)
  have "step s i \<in> reach s0"
    using Cons.prems by (cases "enabled s i") (simp_all add: reach_step step_not_enabled)
  then show ?case using Cons.IH by (simp add: run_def)
qed

section \<open>The evaluation driver\<close>

datatype error = Null_time_source | Assertion_failed

text \<open>
  Modelled from the spec: \<open>DEG_graph_clear_tags\<close> is not part of the sources at hand; the
  spec has it clear the remaining update tags of the graph, so that the tag set is empty
  after a pass.
\<close>

definition DEG_graph_clear_tags :: "depsgraph \<Rightarrow> depsgraph" where
  "DEG_graph_clear_tags graph = graph\<lparr>entry_tags := {}\<rparr>"

text \<open>The loop of the driver that clears \<open>node->done\<close>.\<close>

definition clear_done_tags :: "op_node list \<Rightarrow> op_node list" where
  "clear_done_tags ops = map (\<lambda>node. node\<lparr>done_tag := 0\<rparr>) ops"

text \<open>
  The state in which scheduling starts: the pre-pass has run, the tags \<open>done\<close> are cleared,
  and the caller is about to run \<open>schedule_graph\<close>.
\<close>

definition pass_start :: "32 word \<Rightarrow> op_node list \<Rightarrow> eval_state" where
  "pass_start ls ops = schedule_start ls (clear_done_tags (calculate_pending_parents ls ops))"

text \<open>
  A pass returns the context, the graph and the events it produced, or the reason why it
  did not complete. The dereference of a null time source is the error \<open>Null_time_source\<close>.
  The schedule is the order in which the threads happen to run.
\<close>

definition DEG_evaluate_on_refresh_ex ::
  "nat list \<Rightarrow> evaluation_context \<Rightarrow> depsgraph \<Rightarrow> 32 word \<Rightarrow> error + evaluation_context \<times> depsgraph \<times> event list" where
  "DEG_evaluate_on_refresh_ex sched eval_ctx graph ls =
     (if entry_tags graph = {} then Inr (eval_ctx, graph, [])
      else case time_source graph of
        None \<Rightarrow> Inl Null_time_source
      | Some time_src \<Rightarrow>
          let eval_ctx' = eval_ctx\<lparr>ctime := cfra time_src\<rparr>;
              s = drain sched (pass_start ls (operations graph))
          in if aborted s then Inl Assertion_failed
             else Inr (eval_ctx', DEG_graph_clear_tags (graph\<lparr>operations := nodes s\<rparr>), trace s))"

text \<open>\<open>scene_frame\<close> is the value of \<open>BKE_scene_frame_get(scene)\<close>.\<close>

definition DEG_evaluate_on_refresh ::
  "nat list \<Rightarrow> evaluation_context \<Rightarrow> depsgraph \<Rightarrow> real \<Rightarrow> error + evaluation_context \<times> depsgraph \<times> event list" where
  "DEG_evaluate_on_refresh sched eval_ctx graph scene_frame =
     (case time_source graph of
        None \<Rightarrow> Inl Null_time_source
      | Some tsrc \<Rightarrow>
          DEG_evaluate_on_refresh_ex sched eval_ctx
            (graph\<lparr>time_source := Some (tsrc\<lparr>cfra := scene_frame\<rparr>)\<rparr>) (graph_layers graph))"

text \<open>
  \<open>tag_update\<close> and \<open>flush_updates\<close> stand for \<open>tsrc->tag_update(graph)\<close> and
  \<open>DEG_graph_flush_updates(bmain, graph)\<close>, which belong to other files.
\<close>

definition DEG_evaluate_on_framechange ::
  "nat list \<Rightarrow> (depsgraph \<Rightarrow> depsgraph) \<Rightarrow> (depsgraph \<Rightarrow> depsgraph) \<Rightarrow> evaluation_context \<Rightarrow> depsgraph \<Rightarrow> real \<Rightarrow> 32 word
     \<Rightarrow> error + evaluation_context \<times> depsgraph \<times> event list" where
  "DEG_evaluate_on_framechange sched tag_update flush_updates eval_ctx graph new_time ls =
     (case time_source graph of
        None \<Rightarrow> Inl Null_time_source
      | Some tsrc \<Rightarrow>
          DEG_evaluate_on_refresh_ex sched eval_ctx
            (flush_updates (tag_update (graph\<lparr>time_source := Some (tsrc\<lparr>cfra := new_time\<rparr>)\<rparr>))) ls)"

section \<open>The pre-pass in closed form\<close>

text \<open>The number of incoming relations that pass the test of \<open>calculate_pending_func\<close>.\<close>

definition pending_count :: "32 word \<Rightarrow> op_node list \<Rightarrow> op_node \<Rightarrow> nat" where
  "pending_count ls ops node = length (filter (counts_as_pending ls ops) (inlinks node))"

definition readied :: "32 word \<Rightarrow> op_node list \<Rightarrow> op_node \<Rightarrow> op_node" where
  "readied ls ops node =
     node\<lparr>scheduled := False,
          num_links_pending := (if in_update ls node then of_nat (pending_count ls ops node) else 0)\<rparr>"

lemma fold_count_link:
  "fold (count_link ls ops) rels node =
     node\<lparr>num_links_pending := num_links_pending node + of_nat (length (filter (counts_as_pending ls ops) rels))\<rparr>"
  by (induction rels arbitrary: node) (simp_all add: count_link_def)

lemma calculate_pending_func_readied:
  "calculate_pending_func ls ops i = ops[i := readied ls ops (ops ! i)]"
proof -
  define node where "node = (ops ! i)\<lparr>num_links_pending := 0, scheduled := False\<rparr>"
  have test: "(owner_layers node AND ls \<noteq> 0 \<and> needs_update node) = in_update ls (ops ! i)"
    by (auto simp: in_update_def node_def)
  have counted: "fold (count_link ls ops) (inlinks node) node = readied ls ops (ops ! i)"
    if "in_update ls (ops ! i)"
    by (rule op_node.equality) (simp_all add: fold_count_link readied_def pending_count_def node_def that)
  have skipped: "node = readied ls ops (ops ! i)" if "\<not> in_update ls (ops ! i)"
    by (rule op_node.equality) (simp_all add: readied_def node_def that)
  have unfolded: "calculate_pending_func ls ops i =
      (if owner_layers node AND ls \<noteq> 0 \<and> needs_update node
       then ops[i := fold (count_link ls ops) (inlinks node) node] else ops[i := node])"
    unfolding calculate_pending_func_def Let_def node_def ..
  show ?thesis
  proof (cases "in_update ls (ops ! i)")
    case True
    then have "calculate_pending_func ls ops i = ops[i := fold (count_link ls ops) (inlinks node) node]"
      unfolding unfolded test by (simp only: if_True)
    then show ?thesis by (simp only: counted [OF True])
  next
    case False
    then have "calculate_pending_func ls ops i = ops[i := node]"
      unfolding unfolded test by (simp only: if_False)
    then show ?thesis using skipped [OF False] by (simp only:)
  qed
qed

text \<open>The nodes after the calls for the indices in \<open>D\<close>, in terms of the nodes before all calls.\<close>

definition readied_on :: "nat set \<Rightarrow> 32 word \<Rightarrow> op_node list \<Rightarrow> op_node list \<Rightarrow> bool" where
  "readied_on D ls ops0 ops \<longleftrightarrow>
     length ops = length ops0 \<and>
     (\<forall>i. ops ! i = (if i \<in> D \<and> i < length ops0 then readied ls ops0 (ops0 ! i) else ops0 ! i))"

lemma readied_on_counts:
  assumes "readied_on D ls ops0 ops"
  shows "counts_as_pending ls ops = counts_as_pending ls ops0"
proof (rule ext)
  fix rel
  have "needs_update (ops ! p) = needs_update (ops0 ! p) \<and> owner_layers (ops ! p) = owner_layers (ops0 ! p)" for p
    using assms by (simp add: readied_on_def readied_def)
  then show "counts_as_pending ls ops rel = counts_as_pending ls ops0 rel"
    by (simp add: counts_as_pending_def split: depsnode.splits)
qed

lemma readied_on_readied:
  assumes "readied_on D ls ops0 ops"
  shows "readied ls ops (ops ! i) = readied ls ops0 (ops0 ! i)"
proof -
  have "ops ! i = ops0 ! i \<or> ops ! i = readied ls ops0 (ops0 ! i)"
    using assms by (simp add: readied_on_def)
  then show ?thesis
    by (auto simp: readied_def pending_count_def in_update_def readied_on_counts [OF assms])
qed

lemma readied_on_step:
  assumes "readied_on D ls ops0 ops"
  shows "readied_on (insert j D) ls ops0 (calculate_pending_func ls ops j)"
proof -
  have len: "length ops = length ops0" using assms by (simp add: readied_on_def)
  show ?thesis
  proof (cases "j < length ops")
    case True
    then show ?thesis
      unfolding calculate_pending_func_readied readied_on_readied [OF assms]
      using assms by (simp add: readied_on_def nth_list_update)
  next
    case False
    then show ?thesis
      unfolding calculate_pending_func_readied readied_on_readied [OF assms]
      using assms by (simp add: readied_on_def list_update_beyond not_less)
  qed
qed

lemma readied_on_fold:
  "readied_on D ls ops0 ops \<Longrightarrow> readied_on (D \<union> set order) ls ops0 (calculate_pending_in_order order ls ops)"
proof (induction order arbitrary: D ops)
  case Nil
  then show ?case by (simp add: calculate_pending_in_order_def)
next
  case (Cons j order)
  have "calculate_pending_in_order (j # order) ls ops
      = calculate_pending_in_order order ls (calculate_pending_func ls ops j)"
    by (simp add: calculate_pending_in_order_def)
  moreover have "D \<union> set (j # order) = insert j D \<union> set order"
    by simp
  ultimately show ?case
    using Cons.IH [OF readied_on_step [OF Cons.prems, of j]] by (simp only:)
qed

lemma calculate_pending_in_order_map:
  assumes "set order = {0..<length ops}"
  shows "calculate_pending_in_order order ls ops = map (readied ls ops) ops"
proof -
  have "readied_on {} ls ops ops" by (simp add: readied_on_def)
  from readied_on_fold [OF this, of order]
  have "readied_on (set order) ls ops (calculate_pending_in_order order ls ops)" by simp
  then have len: "length (calculate_pending_in_order order ls ops) = length ops"
    and nth: "\<And>i. calculate_pending_in_order order ls ops ! i =
        (if i \<in> set order \<and> i < length ops then readied ls ops (ops ! i) else ops ! i)"
    by (simp_all add: readied_on_def)
  show ?thesis
    by (rule nth_equalityI) (simp_all add: len nth assms)
qed

lemma calculate_pending_parents_map:
  "calculate_pending_parents ls ops = map (readied ls ops) ops"
  by (simp add: calculate_pending_parents_def calculate_pending_in_order_map)

section \<open>What a step does to the frames\<close>

definition frames :: "eval_state \<Rightarrow> frame multiset" where
  "frames s = mset (concat (tasks s))"

lemma step_unfold:
  assumes "enabled s i" and "tasks s ! i = f # rest"
  shows "step s i = s\<lparr>nodes := e_nodes (exec_frame (layers s) (nodes s) f),
      tasks := (tasks s)[i := e_frames (exec_frame (layers s) (nodes s) f) @ rest]
        @ map (\<lambda>n. [Task_entry n]) (e_pushed (exec_frame (layers s) (nodes s) f)),
      trace := trace s @ e_events (exec_frame (layers s) (nodes s) f),
      aborted := e_abort (exec_frame (layers s) (nodes s) f)\<rparr>"
  using assms by (simp add: step_def Let_def)

lemma enabled_top: "enabled s i \<Longrightarrow> \<exists>f rest. tasks s ! i = f # rest"
  by (cases "tasks s ! i") (simp_all add: enabled_def)

lemma concat_singletons: "concat (map (\<lambda>n. [h n]) xs) = map h xs"
  by (induction xs) simp_all

lemma frames_step:
  assumes "enabled s i" and "tasks s ! i = f # rest"
  obtains G where "frames s = add_mset f G"
    and "frames (step s i) = G + mset (e_frames (exec_frame (layers s) (nodes s) f))
          + mset (map Task_entry (e_pushed (exec_frame (layers s) (nodes s) f)))"
proof -
  define e where "e = exec_frame (layers s) (nodes s) f"
  define G where "G = mset (concat (take i (tasks s))) + mset rest + mset (concat (drop (Suc i) (tasks s)))"
  have i: "i < length (tasks s)" using assms(1) by (simp add: enabled_def)
  have "tasks s = take i (tasks s) @ (f # rest) # drop (Suc i) (tasks s)"
    using id_take_nth_drop [OF i] assms(2) by simp
  then have "concat (tasks s) = concat (take i (tasks s)) @ (f # rest) @ concat (drop (Suc i) (tasks s))"
    by (metis concat.simps(2) concat_append)
  then have 1: "frames s = add_mset f G"
    by (simp add: frames_def G_def)
  have "(tasks s)[i := e_frames e @ rest] = take i (tasks s) @ (e_frames e @ rest) # drop (Suc i) (tasks s)"
    using upd_conv_take_nth_drop [OF i] by simp
  then have "concat ((tasks s)[i := e_frames e @ rest] @ map (\<lambda>n. [Task_entry n]) (e_pushed e))
      = concat (take i (tasks s)) @ (e_frames e @ rest) @ concat (drop (Suc i) (tasks s)) @ map Task_entry (e_pushed e)"
    by (simp add: concat_singletons)
  then have 2: "frames (step s i) = G + mset (e_frames e) + mset (map Task_entry (e_pushed e))"
    unfolding step_unfold [OF assms] frames_def e_def [symmetric] G_def by simp
  show thesis using that [OF 1] 2 unfolding e_def by blast
qed

section \<open>Fields a step leaves alone\<close>

lemma length_atomic_sub [simp]: "length (atomic_sub_pending ops n) = length ops"
  by (simp add: atomic_sub_pending_def)

lemma length_atomic_or [simp]: "length (atomic_or_scheduled ops n) = length ops"
  by (simp add: atomic_or_scheduled_def)

lemma nth_atomic_sub:
  "atomic_sub_pending ops n ! m =
     (if m = n \<and> n < length ops then (ops ! n)\<lparr>num_links_pending := num_links_pending (ops ! n) - 1\<rparr> else ops ! m)"
  by (cases "n < length ops") (simp_all add: atomic_sub_pending_def nth_list_update list_update_beyond not_less)

lemma nth_atomic_or:
  "atomic_or_scheduled ops n ! m =
     (if m = n \<and> n < length ops then (ops ! n)\<lparr>scheduled := True\<rparr> else ops ! m)"
  by (cases "n < length ops") (simp_all add: atomic_or_scheduled_def nth_list_update list_update_beyond not_less)

lemma statics_atomic_sub [simp]:
  "needs_update (atomic_sub_pending ops n ! m) = needs_update (ops ! m)"
  "owner_layers (atomic_sub_pending ops n ! m) = owner_layers (ops ! m)"
  "evaluate (atomic_sub_pending ops n ! m) = evaluate (ops ! m)"
  "inlinks (atomic_sub_pending ops n ! m) = inlinks (ops ! m)"
  "scheduled (atomic_sub_pending ops n ! m) = scheduled (ops ! m)"
  "in_update ls (atomic_sub_pending ops n ! m) = in_update ls (ops ! m)"
  by (simp_all add: nth_atomic_sub in_update_def)

lemma statics_atomic_or [simp]:
  "needs_update (atomic_or_scheduled ops n ! m) = needs_update (ops ! m)"
  "owner_layers (atomic_or_scheduled ops n ! m) = owner_layers (ops ! m)"
  "evaluate (atomic_or_scheduled ops n ! m) = evaluate (ops ! m)"
  "inlinks (atomic_or_scheduled ops n ! m) = inlinks (ops ! m)"
  "num_links_pending (atomic_or_scheduled ops n ! m) = num_links_pending (ops ! m)"
  "in_update ls (atomic_or_scheduled ops n ! m) = in_update ls (ops ! m)"
  by (simp_all add: nth_atomic_or in_update_def)

lemma pending_atomic_sub:
  "num_links_pending (atomic_sub_pending ops n ! m) =
     (if m = n \<and> n < length ops then num_links_pending (ops ! n) - 1 else num_links_pending (ops ! m))"
  by (simp add: nth_atomic_sub)

lemma scheduled_atomic_or:
  "scheduled (atomic_or_scheduled ops n ! m) = (m = n \<and> n < length ops \<or> scheduled (ops ! m))"
  by (auto simp: nth_atomic_or)

lemma atomic_or_already: "n < length ops \<Longrightarrow> scheduled (ops ! n) \<Longrightarrow> atomic_or_scheduled ops n = ops"
  by (rule nth_equalityI) (auto simp: nth_atomic_or)

section \<open>Bookkeeping of the frames\<close>

definition targets_valid :: "op_node list \<Rightarrow> bool" where
  "targets_valid ops \<longleftrightarrow> (\<forall>p<length ops. \<forall>rel\<in>set (outlinks (ops ! p)). rel_to rel < length ops)"

text \<open>What is known of the node a frame is about.\<close>

fun frame_ok :: "32 word \<Rightarrow> op_node list \<Rightarrow> frame \<Rightarrow> bool" where
  "frame_ok ls ops (Schedule_graph ns) = (\<forall>n\<in>set ns. n < length ops)"
| "frame_ok ls ops (Schedule_node n d) = (n < length ops)"
| "frame_ok ls ops (Schedule_node_read n) = (n < length ops \<and> in_update ls (ops ! n))"
| "frame_ok ls ops (Schedule_node_claim n) =
     (n < length ops \<and> in_update ls (ops ! n) \<and> num_links_pending (ops ! n) = 0)"
| "frame_ok ls ops (Schedule_children rels) = (\<forall>rel\<in>set rels. rel_to rel < length ops)"
| "frame_ok ls ops (Task_entry n) =
     (n < length ops \<and> in_update ls (ops ! n) \<and> scheduled (ops ! n) \<and> evaluate (ops ! n))"
| "frame_ok ls ops (Task_evaluate n) = (n < length ops \<and> in_update ls (ops ! n) \<and> scheduled (ops ! n))"
| "frame_ok ls ops (Task_completed n) =
     (n < length ops \<and> in_update ls (ops ! n) \<and> scheduled (ops ! n) \<and> evaluate (ops ! n))"
| "frame_ok ls ops (Task_outlinks n) = (n < length ops \<and> in_update ls (ops ! n) \<and> scheduled (ops ! n))"
| "frame_ok ls ops (Chain_sub n) = (n < length ops \<and> in_update ls (ops ! n))"
| "frame_ok ls ops (Chain_read n) = (n < length ops \<and> in_update ls (ops ! n))"
| "frame_ok ls ops (Chain_claim n) =
     (n < length ops \<and> in_update ls (ops ! n) \<and> num_links_pending (ops ! n) = 0)"

text \<open>The relations of a list that make their target \<open>n\<close> wait.\<close>

definition links_to :: "nat \<Rightarrow> relation list \<Rightarrow> nat" where
  "links_to n rels = length (filter (\<lambda>rel. rel_to rel = n \<and> \<not> cyclic rel) rels)"

text \<open>The decrements of the counter of \<open>n\<close> that a frame has still to make.\<close>

fun owed :: "op_node list \<Rightarrow> nat \<Rightarrow> frame \<Rightarrow> nat" where
  "owed ops n (Schedule_graph ns) = 0"
| "owed ops n (Schedule_node m d) = (if d \<and> m = n then 1 else 0)"
| "owed ops n (Schedule_node_read m) = 0"
| "owed ops n (Schedule_node_claim m) = 0"
| "owed ops n (Schedule_children rels) = links_to n rels"
| "owed ops n (Task_entry p) = links_to n (outlinks (ops ! p))"
| "owed ops n (Task_evaluate p) = links_to n (outlinks (ops ! p))"
| "owed ops n (Task_completed p) = links_to n (outlinks (ops ! p))"
| "owed ops n (Task_outlinks p) = links_to n (outlinks (ops ! p))"
| "owed ops n (Chain_sub m) = (if m = n then 1 else 0)"
| "owed ops n (Chain_read m) = 0"
| "owed ops n (Chain_claim m) = 0"

text \<open>The frames that will look at the counter of \<open>n\<close> again.\<close>

fun examines :: "nat \<Rightarrow> frame \<Rightarrow> bool" where
  "examines n (Schedule_graph ns) = (n \<in> set ns)"
| "examines n (Schedule_node m d) = (m = n)"
| "examines n (Schedule_node_read m) = (m = n)"
| "examines n (Schedule_node_claim m) = (m = n)"
| "examines n (Chain_sub m) = (m = n)"
| "examines n (Chain_read m) = (m = n)"
| "examines n (Chain_claim m) = (m = n)"
| "examines n _ = False"

text \<open>The frames that have still to call, or to return from, the work function of \<open>n\<close>.\<close>

fun to_start :: "nat \<Rightarrow> frame \<Rightarrow> nat" where
  "to_start n (Task_entry m) = (if m = n then 1 else 0)"
| "to_start n (Task_evaluate m) = (if m = n then 1 else 0)"
| "to_start n _ = 0"

fun to_complete :: "nat \<Rightarrow> frame \<Rightarrow> nat" where
  "to_complete n (Task_entry m) = (if m = n then 1 else 0)"
| "to_complete n (Task_evaluate m) = (if m = n then 1 else 0)"
| "to_complete n (Task_completed m) = (if m = n then 1 else 0)"
| "to_complete n _ = 0"

text \<open>A step that touches no shared field and produces no event keeps the books.\<close>

definition local_ok :: "32 word \<Rightarrow> op_node list \<Rightarrow> frame \<Rightarrow> frame list \<Rightarrow> bool" where
  "local_ok ls ops f fs \<longleftrightarrow>
     (\<forall>g\<in>set fs. frame_ok ls ops g) \<and>
     (\<forall>n. sum_list (map (owed ops n) fs) \<le> owed ops n f) \<and>
     (\<forall>n. scheduled (ops ! n) \<or> \<not> in_update ls (ops ! n) \<or> sum_list (map (owed ops n) fs) = owed ops n f) \<and>
     (\<forall>n. examines n f \<and> in_update ls (ops ! n) \<and> \<not> scheduled (ops ! n) \<and> num_links_pending (ops ! n) = 0
        \<longrightarrow> (\<exists>g\<in>set fs. examines n g)) \<and>
     (\<forall>n. evaluate (ops ! n) \<longrightarrow>
        sum_list (map (to_start n) fs) = to_start n f \<and> sum_list (map (to_complete n) fs) = to_complete n f)"

lemma links_to_simps [simp]:
  "links_to n [] = 0"
  "links_to n (rel # rels) = (if rel_to rel = n \<and> \<not> cyclic rel then 1 else 0) + links_to n rels"
  by (simp_all add: links_to_def)

lemma frame_ok_valid:
  assumes "frame_ok ls ops f" and "targets_valid ops"
  shows "frame_valid ops f"
proof (cases f)
  case (Task_outlinks n)
  then have "n < length ops" using assms(1) by simp
  then have "\<forall>rel\<in>set (outlinks (ops ! n)). rel_to rel < length ops"
    using assms(2) by (simp add: targets_valid_def)
  then show ?thesis using Task_outlinks \<open>n < length ops\<close>
    by (auto split: list.splits)
qed (use assms in \<open>auto split: list.splits\<close>)

lemma exec_frame_kinds:
  assumes ok: "frame_ok ls ops f" and tv: "targets_valid ops"
  obtains
    (underflow) n where "f = Schedule_node n True \<or> f = Chain_sub n" "n < length ops"
      "in_update ls (ops ! n)" "num_links_pending (ops ! n) = 0"
  | (local) fs where "exec_frame ls ops f = proceed ops fs" "local_ok ls ops f fs"
  | (decrement) n g where
      "f = Schedule_node n True \<and> g = Schedule_node_read n \<or> f = Chain_sub n \<and> g = Chain_read n"
      "n < length ops" "in_update ls (ops ! n)" "num_links_pending (ops ! n) \<noteq> 0"
      "exec_frame ls ops f = proceed (atomic_sub_pending ops n) [g]"
  | (claim_noop) n where "f = Schedule_node_claim n" "n < length ops" "\<not> scheduled (ops ! n)"
      "\<not> evaluate (ops ! n)"
      "exec_frame ls ops f = proceed (atomic_or_scheduled ops n) [Schedule_children (outlinks (ops ! n))]"
  | (claim_push) n where "f = Schedule_node_claim n" "n < length ops" "\<not> scheduled (ops ! n)"
      "evaluate (ops ! n)"
      "exec_frame ls ops f = \<lparr>e_nodes = atomic_or_scheduled ops n, e_frames = [], e_pushed = [n],
         e_events = [Pushed n], e_abort = False\<rparr>"
  | (claim_chain) n where "f = Chain_claim n" "n < length ops" "\<not> scheduled (ops ! n)"
      "exec_frame ls ops f = proceed (atomic_or_scheduled ops n) [Task_evaluate n]"
  | (started) n where "f = Task_evaluate n" "n < length ops" "evaluate (ops ! n)"
      "exec_frame ls ops f = emit ops (Started n) [Task_completed n]"
  | (completed) n where "f = Task_completed n" "n < length ops"
      "exec_frame ls ops f = emit ops (Completed n) [Task_outlinks n]"
proof -
  have valid: "frame_valid ops f" using ok tv by (rule frame_ok_valid)
  show thesis
  proof (cases f)
    case (Schedule_graph ns)
    show ?thesis
    proof (cases ns)
      case Nil
      show ?thesis
      proof (rule local)
        show "exec_frame ls ops f = proceed ops []"
          using Schedule_graph Nil by (simp add: exec_frame_def schedule_graph_def)
        show "local_ok ls ops f []"
          using Schedule_graph Nil by (simp add: local_ok_def)
      qed
    next
      case (Cons m ms)
      show ?thesis
      proof (rule local)
        show "exec_frame ls ops f = proceed ops [Schedule_node m False, Schedule_graph ms]"
          using Schedule_graph Cons by (simp add: exec_frame_def schedule_graph_def)
        show "local_ok ls ops f [Schedule_node m False, Schedule_graph ms]"
          using Schedule_graph Cons ok by (auto simp: local_ok_def)
      qed
    qed
  next
    case (Schedule_node n d)
    then have n: "n < length ops" using ok by simp
    consider "\<not> in_update ls (ops ! n)" | "in_update ls (ops ! n)" "\<not> d"
      | "in_update ls (ops ! n)" "d" "num_links_pending (ops ! n) = 0"
      | "in_update ls (ops ! n)" "d" "num_links_pending (ops ! n) \<noteq> 0"
      by blast
    then show ?thesis
    proof cases
      case 1
      show ?thesis
      proof (rule local)
        show "exec_frame ls ops f = proceed ops []"
          using Schedule_node n 1 by (auto simp: exec_frame_def schedule_node_def in_update_def Let_def)
        show "local_ok ls ops f []"
          using Schedule_node 1 by (auto simp: local_ok_def)
      qed
    next
      case 2
      show ?thesis
      proof (rule local)
        show "exec_frame ls ops f = proceed ops [Schedule_node_read n]"
          using Schedule_node n 2 by (auto simp: exec_frame_def schedule_node_def in_update_def Let_def)
        show "local_ok ls ops f [Schedule_node_read n]"
          using Schedule_node n 2 by (auto simp: local_ok_def)
      qed
    next
      case 3
      then show ?thesis using underflow [of n] Schedule_node n by simp
    next
      case 4
      show ?thesis
      proof (rule decrement [of n "Schedule_node_read n"])
        show "exec_frame ls ops f = proceed (atomic_sub_pending ops n) [Schedule_node_read n]"
          using Schedule_node n 4 by (auto simp: exec_frame_def schedule_node_def in_update_def Let_def)
      qed (use Schedule_node n 4 in simp_all)
    qed
  next
    case (Schedule_node_read n)
    show ?thesis
    proof (rule local)
      show "exec_frame ls ops f = proceed ops (if num_links_pending (ops ! n) = 0 then [Schedule_node_claim n] else [])"
        using Schedule_node_read ok by (simp add: exec_frame_def schedule_node_read_def)
      show "local_ok ls ops f (if num_links_pending (ops ! n) = 0 then [Schedule_node_claim n] else [])"
        using Schedule_node_read ok by (auto simp: local_ok_def)
    qed
  next
    case (Schedule_node_claim n)
    then have n: "n < length ops" using ok by simp
    consider "scheduled (ops ! n)" | "\<not> scheduled (ops ! n)" "evaluate (ops ! n)"
      | "\<not> scheduled (ops ! n)" "\<not> evaluate (ops ! n)"
      by blast
    then show ?thesis
    proof cases
      case 1
      show ?thesis
      proof (rule local)
        show "exec_frame ls ops f = proceed ops []"
          using Schedule_node_claim n 1 by (simp add: exec_frame_def schedule_node_claim_def atomic_or_already Let_def)
        show "local_ok ls ops f []"
          using Schedule_node_claim 1 by (auto simp: local_ok_def)
      qed
    next
      case 2
      show ?thesis
        by (rule claim_push [of n])
          (use Schedule_node_claim n 2 in \<open>simp_all add: exec_frame_def schedule_node_claim_def is_noop_def Let_def\<close>)
    next
      case 3
      show ?thesis
        by (rule claim_noop [of n])
          (use Schedule_node_claim n 3 in \<open>simp_all add: exec_frame_def schedule_node_claim_def is_noop_def Let_def\<close>)
    qed
  next
    case (Schedule_children rels)
    show ?thesis
    proof (rule local)
      show "exec_frame ls ops f = proceed ops
          (case rels of [] \<Rightarrow> []
           | rel # rels' \<Rightarrow> if scheduled (ops ! rel_to rel) then [Schedule_children rels']
               else [Schedule_node (rel_to rel) (\<not> cyclic rel), Schedule_children rels'])"
        using Schedule_children ok by (simp add: exec_frame_def schedule_children_def split: list.splits)
      show "local_ok ls ops f
          (case rels of [] \<Rightarrow> []
           | rel # rels' \<Rightarrow> if scheduled (ops ! rel_to rel) then [Schedule_children rels']
               else [Schedule_node (rel_to rel) (\<not> cyclic rel), Schedule_children rels'])"
        using Schedule_children ok by (auto simp: local_ok_def split: list.splits)
    qed
  next
    case (Task_entry n)
    show ?thesis
    proof (rule local)
      show "exec_frame ls ops f = proceed ops [Task_evaluate n]"
        using Task_entry ok by (simp add: exec_frame_def deg_task_run_func_def is_noop_def)
      show "local_ok ls ops f [Task_evaluate n]"
        using Task_entry ok by (auto simp: local_ok_def)
    qed
  next
    case (Task_evaluate n)
    show ?thesis
    proof (cases "evaluate (ops ! n)")
      case True
      show ?thesis
        by (rule started [of n]) (use Task_evaluate ok True in \<open>simp_all add: exec_frame_def task_evaluate_def\<close>)
    next
      case False
      show ?thesis
      proof (rule local)
        show "exec_frame ls ops f = proceed ops [Task_outlinks n]"
          using Task_evaluate ok False by (simp add: exec_frame_def task_evaluate_def)
        show "local_ok ls ops f [Task_outlinks n]"
          using Task_evaluate ok False by (auto simp: local_ok_def)
      qed
    qed
  next
    case (Task_completed n)
    show ?thesis
      by (rule completed [of n]) (use Task_completed ok in \<open>simp_all add: exec_frame_def task_completed_def\<close>)
  next
    case (Task_outlinks n)
    then have n: "n < length ops" and act: "in_update ls (ops ! n)" using ok by simp_all
    have tgt: "\<forall>rel\<in>set (outlinks (ops ! n)). rel_to rel < length ops"
      using tv n by (simp add: targets_valid_def)
    show ?thesis
    proof (cases "length (outlinks (ops ! n)) = 1")
      case False
      show ?thesis
      proof (rule local)
        show "exec_frame ls ops f = proceed ops [Schedule_children (outlinks (ops ! n))]"
          using Task_outlinks valid False by (simp add: exec_frame_def task_outlinks_def Let_def)
        show "local_ok ls ops f [Schedule_children (outlinks (ops ! n))]"
          using Task_outlinks tgt by (auto simp: local_ok_def)
      qed
    next
      case True
      then obtain rel where rel: "outlinks (ops ! n) = [rel]"
        by (cases "outlinks (ops ! n)") auto
      then have c: "rel_to rel < length ops" using tgt by simp
      define fs where "fs =
        (if scheduled (ops ! rel_to rel) then []
         else if \<not> in_update ls (ops ! rel_to rel) then []
         else if \<not> cyclic rel then [Chain_sub (rel_to rel)] else [Chain_read (rel_to rel)])"
      show ?thesis
      proof (rule local)
        show "exec_frame ls ops f = proceed ops fs"
          using Task_outlinks valid rel
          by (auto simp: exec_frame_def task_outlinks_def fs_def in_update_def Let_def)
        show "local_ok ls ops f fs"
          using Task_outlinks rel c by (auto simp: local_ok_def fs_def)
      qed
    qed
  next
    case (Chain_sub n)
    then have n: "n < length ops" "in_update ls (ops ! n)" using ok by simp_all
    show ?thesis
    proof (cases "num_links_pending (ops ! n) = 0")
      case True
      then show ?thesis using underflow [of n] Chain_sub n by simp
    next
      case False
      show ?thesis
        by (rule decrement [of n "Chain_read n"])
          (use Chain_sub n False in \<open>simp_all add: exec_frame_def chain_sub_def\<close>)
    qed
  next
    case (Chain_read n)
    show ?thesis
    proof (rule local)
      show "exec_frame ls ops f = proceed ops (if num_links_pending (ops ! n) = 0 then [Chain_claim n] else [])"
        using Chain_read ok by (simp add: exec_frame_def chain_read_def)
      show "local_ok ls ops f (if num_links_pending (ops ! n) = 0 then [Chain_claim n] else [])"
        using Chain_read ok by (auto simp: local_ok_def)
    qed
  next
    case (Chain_claim n)
    then have n: "n < length ops" using ok by simp
    show ?thesis
    proof (cases "scheduled (ops ! n)")
      case True
      show ?thesis
      proof (rule local)
        show "exec_frame ls ops f = proceed ops []"
          using Chain_claim n True by (simp add: exec_frame_def chain_claim_def atomic_or_already Let_def)
        show "local_ok ls ops f []"
          using Chain_claim True by (auto simp: local_ok_def)
      qed
    next
      case False
      show ?thesis
        by (rule claim_chain [of n])
          (use Chain_claim n False in \<open>simp_all add: exec_frame_def chain_claim_def Let_def\<close>)
    qed
  qed
qed


section \<open>The invariant of a pass\<close>

text \<open>
  The relations that still keep \<open>n\<close> waiting because their source has not been claimed.
\<close>

definition waiting_parents :: "32 word \<Rightarrow> op_node list \<Rightarrow> nat \<Rightarrow> nat" where
  "waiting_parents ls ops n =
     (\<Sum>p | p < length ops \<and> in_update ls (ops ! p) \<and> \<not> scheduled (ops ! p). links_to n (outlinks (ops ! p)))"

definition frames_ok :: "32 word \<Rightarrow> op_node list \<Rightarrow> frame multiset \<Rightarrow> bool" where
  "frames_ok ls ops F \<longleftrightarrow> (\<forall>f\<in>#F. frame_ok ls ops f)"

definition claimed_ok :: "32 word \<Rightarrow> op_node list \<Rightarrow> bool" where
  "claimed_ok ls ops \<longleftrightarrow>
     (\<forall>n<length ops. scheduled (ops ! n) \<longrightarrow> in_update ls (ops ! n) \<and> num_links_pending (ops ! n) = 0)"

definition counters_ok :: "32 word \<Rightarrow> op_node list \<Rightarrow> frame multiset \<Rightarrow> bool" where
  "counters_ok ls ops F \<longleftrightarrow>
     (\<forall>n<length ops. in_update ls (ops ! n) \<longrightarrow>
        unat (num_links_pending (ops ! n)) = waiting_parents ls ops n + sum_mset (image_mset (owed ops n) F))"

definition progress_ok :: "32 word \<Rightarrow> op_node list \<Rightarrow> frame multiset \<Rightarrow> bool" where
  "progress_ok ls ops F \<longleftrightarrow>
     (\<forall>n<length ops. in_update ls (ops ! n) \<and> \<not> scheduled (ops ! n) \<and> num_links_pending (ops ! n) = 0
        \<longrightarrow> (\<exists>f\<in>#F. examines n f))"

definition calls_ok :: "op_node list \<Rightarrow> frame multiset \<Rightarrow> event list \<Rightarrow> bool" where
  "calls_ok ops F tr \<longleftrightarrow>
     (\<forall>n<length ops. evaluate (ops ! n) \<longrightarrow>
        count_list tr (Started n) + sum_mset (image_mset (to_start n) F) = (if scheduled (ops ! n) then 1 else 0) \<and>
        count_list tr (Completed n) + sum_mset (image_mset (to_complete n) F) = (if scheduled (ops ! n) then 1 else 0) \<and>
        count_list tr (Pushed n) \<le> (if scheduled (ops ! n) then 1 else 0))"

definition events_ok :: "op_node list \<Rightarrow> event list \<Rightarrow> bool" where
  "events_ok ops tr \<longleftrightarrow>
     (\<forall>n. Started n \<in> set tr \<or> Completed n \<in> set tr \<or> Pushed n \<in> set tr \<longrightarrow> n < length ops \<and> evaluate (ops ! n))"

definition sound :: "32 word \<Rightarrow> op_node list \<Rightarrow> frame multiset \<Rightarrow> event list \<Rightarrow> bool" where
  "sound ls ops F tr \<longleftrightarrow>
     targets_valid ops \<and> frames_ok ls ops F \<and> claimed_ok ls ops \<and> counters_ok ls ops F \<and>
     progress_ok ls ops F \<and> calls_ok ops F tr \<and> events_ok ops tr"

lemma sum_image_mset_list: "sum_mset (image_mset h (mset fs)) = sum_list (map h fs)"
  by (metis mset_map sum_mset_sum_list)

lemma owed_atomic_sub [simp]: "owed (atomic_sub_pending ops n) m f = owed ops m f"
  by (cases f) simp_all

lemma owed_atomic_or [simp]: "owed (atomic_or_scheduled ops n) m f = owed ops m f"
  by (cases f) simp_all

lemma owed_atomic_sub_fun [simp]: "owed (atomic_sub_pending ops n) m = owed ops m"
  by (rule ext) simp

lemma owed_atomic_or_fun [simp]: "owed (atomic_or_scheduled ops n) m = owed ops m"
  by (rule ext) simp

lemma targets_valid_atomic_sub [simp]: "targets_valid (atomic_sub_pending ops n) = targets_valid ops"
  by (simp add: targets_valid_def)

lemma targets_valid_atomic_or [simp]: "targets_valid (atomic_or_scheduled ops n) = targets_valid ops"
  by (simp add: targets_valid_def)

lemma waiting_parents_atomic_sub [simp]:
  "waiting_parents ls (atomic_sub_pending ops n) m = waiting_parents ls ops m"
  by (simp add: waiting_parents_def)

lemma waiting_parents_claim:
  assumes "n < length ops" and "in_update ls (ops ! n)" and "\<not> scheduled (ops ! n)"
  shows "waiting_parents ls (atomic_or_scheduled ops n) m + links_to m (outlinks (ops ! n))
    = waiting_parents ls ops m"
proof -
  define A where "A = {p. p < length ops \<and> in_update ls (ops ! p) \<and> \<not> scheduled (ops ! p)}"
  have fin: "finite A" by (simp add: A_def)
  have mem: "n \<in> A" using assms by (simp add: A_def)
  have "{p. p < length (atomic_or_scheduled ops n) \<and> in_update ls (atomic_or_scheduled ops n ! p)
           \<and> \<not> scheduled (atomic_or_scheduled ops n ! p)} = A - {n}"
    using assms(1) by (auto simp: A_def scheduled_atomic_or)
  then have "waiting_parents ls (atomic_or_scheduled ops n) m
      = (\<Sum>p\<in>A - {n}. links_to m (outlinks (ops ! p)))"
    by (simp add: waiting_parents_def)
  moreover have "waiting_parents ls ops m = (\<Sum>p\<in>A. links_to m (outlinks (ops ! p)))"
    by (simp add: waiting_parents_def A_def)
  ultimately show ?thesis
    using sum.remove [OF fin mem, of "\<lambda>p. links_to m (outlinks (ops ! p))"] by simp
qed

lemma frame_ok_atomic_or: "frame_ok ls ops f \<Longrightarrow> frame_ok ls (atomic_or_scheduled ops n) f"
  by (cases f) (auto simp: scheduled_atomic_or)

lemma frame_ok_atomic_sub:
  "frame_ok ls ops f \<Longrightarrow> num_links_pending (ops ! n) \<noteq> 0 \<Longrightarrow> frame_ok ls (atomic_sub_pending ops n) f"
  by (cases f) (auto simp: pending_atomic_sub)

lemma sound_local:
  assumes snd: "sound ls ops (add_mset f G) tr" and loc: "local_ok ls ops f fs"
  shows "sound ls ops (G + mset fs) tr"
proof -
  have "frames_ok ls ops (G + mset fs)"
    using snd loc by (auto simp: sound_def frames_ok_def local_ok_def)
  moreover have "counters_ok ls ops (G + mset fs)"
    unfolding counters_ok_def
  proof (intro allI impI)
    fix n assume n: "n < length ops" and act: "in_update ls (ops ! n)"
    have before: "unat (num_links_pending (ops ! n))
        = waiting_parents ls ops n + (sum_mset (image_mset (owed ops n) G) + owed ops n f)"
      using snd n act by (simp add: sound_def counters_ok_def)
    have le: "sum_list (map (owed ops n) fs) \<le> owed ops n f"
      using loc by (simp add: local_ok_def)
    have "scheduled (ops ! n) \<or> sum_list (map (owed ops n) fs) = owed ops n f"
      using loc act by (auto simp: local_ok_def)
    then have "sum_list (map (owed ops n) fs) = owed ops n f"
    proof
      assume "scheduled (ops ! n)"
      then have "num_links_pending (ops ! n) = 0"
        using snd n by (simp add: sound_def claimed_ok_def)
      then have "owed ops n f = 0" using before by simp
      then show ?thesis using le by simp
    qed
    then show "unat (num_links_pending (ops ! n))
        = waiting_parents ls ops n + sum_mset (image_mset (owed ops n) (G + mset fs))"
      using before by (simp add: sum_image_mset_list)
  qed
  moreover have "progress_ok ls ops (G + mset fs)"
    unfolding progress_ok_def
  proof (intro allI impI)
    fix n assume n: "n < length ops"
      and prem: "in_update ls (ops ! n) \<and> \<not> scheduled (ops ! n) \<and> num_links_pending (ops ! n) = 0"
    then obtain g where g: "g \<in># add_mset f G" "examines n g"
      using snd by (auto simp: sound_def progress_ok_def)
    show "\<exists>h\<in>#G + mset fs. examines n h"
    proof (cases "g = f")
      case True
      then obtain h where "h \<in> set fs" "examines n h"
        using loc g prem by (auto simp: local_ok_def)
      then show ?thesis by auto
    next
      case False
      then show ?thesis using g by auto
    qed
  qed
  moreover have "calls_ok ops (G + mset fs) tr"
    unfolding calls_ok_def
  proof (intro allI impI)
    fix n assume n: "n < length ops" and ev: "evaluate (ops ! n)"
    have "sum_list (map (to_start n) fs) = to_start n f" "sum_list (map (to_complete n) fs) = to_complete n f"
      using loc ev by (simp_all add: local_ok_def)
    moreover have "count_list tr (Started n) + (sum_mset (image_mset (to_start n) G) + to_start n f)
          = (if scheduled (ops ! n) then 1 else 0)"
      and "count_list tr (Completed n) + (sum_mset (image_mset (to_complete n) G) + to_complete n f)
          = (if scheduled (ops ! n) then 1 else 0)"
      and "count_list tr (Pushed n) \<le> (if scheduled (ops ! n) then 1 else 0)"
      using snd n ev by (simp_all add: sound_def calls_ok_def add.commute)
    ultimately show "count_list tr (Started n) + sum_mset (image_mset (to_start n) (G + mset fs))
          = (if scheduled (ops ! n) then 1 else 0) \<and>
        count_list tr (Completed n) + sum_mset (image_mset (to_complete n) (G + mset fs))
          = (if scheduled (ops ! n) then 1 else 0) \<and>
        count_list tr (Pushed n) \<le> (if scheduled (ops ! n) then 1 else 0)"
      by (simp add: sum_image_mset_list)
  qed
  ultimately show ?thesis
    using snd by (simp add: sound_def)
qed

lemma sound_decrement:
  assumes snd: "sound ls ops (add_mset f G) tr"
    and fg: "f = Schedule_node n True \<and> g = Schedule_node_read n \<or> f = Chain_sub n \<and> g = Chain_read n"
    and n: "n < length ops" and act: "in_update ls (ops ! n)" and nz: "num_links_pending (ops ! n) \<noteq> 0"
  shows "sound ls (atomic_sub_pending ops n) (add_mset g G) tr"
proof -
  have owed_f: "owed ops m f = (if m = n then 1 else 0)" and owed_g: "owed ops m g = 0"
    and ex_f: "examines m f = (n = m)" and ex_g: "examines n g"
    and st: "to_start m f = 0" "to_start m g = 0" "to_complete m f = 0" "to_complete m g = 0" for m
    using fg by auto
  have "frames_ok ls (atomic_sub_pending ops n) (add_mset g G)"
    using snd fg n act nz by (auto simp: sound_def frames_ok_def frame_ok_atomic_sub)
  moreover have "claimed_ok ls (atomic_sub_pending ops n)"
    using snd nz by (auto simp: sound_def claimed_ok_def pending_atomic_sub)
  moreover have "counters_ok ls (atomic_sub_pending ops n) (add_mset g G)"
    unfolding counters_ok_def
  proof (intro allI impI)
    fix m assume m: "m < length (atomic_sub_pending ops n)"
      and "in_update ls (atomic_sub_pending ops n ! m)"
    then have before: "unat (num_links_pending (ops ! m))
        = waiting_parents ls ops m + (sum_mset (image_mset (owed ops m) G) + owed ops m f)"
      using snd by (simp add: sound_def counters_ok_def)
    show "unat (num_links_pending (atomic_sub_pending ops n ! m))
        = waiting_parents ls (atomic_sub_pending ops n) m
          + sum_mset (image_mset (owed (atomic_sub_pending ops n) m) (add_mset g G))"
    proof (cases "m = n")
      case True
      then show ?thesis
        using before n nz by (simp add: pending_atomic_sub owed_f owed_g unat_minus_one)
    next
      case False
      then show ?thesis
        using before by (simp add: pending_atomic_sub owed_f owed_g)
    qed
  qed
  moreover have "progress_ok ls (atomic_sub_pending ops n) (add_mset g G)"
    unfolding progress_ok_def
  proof (intro allI impI)
    fix m assume m: "m < length (atomic_sub_pending ops n)"
      and prem: "in_update ls (atomic_sub_pending ops n ! m) \<and> \<not> scheduled (atomic_sub_pending ops n ! m)
        \<and> num_links_pending (atomic_sub_pending ops n ! m) = 0"
    show "\<exists>h\<in>#add_mset g G. examines m h"
    proof (cases "m = n")
      case True
      then show ?thesis using ex_g by auto
    next
      case False
      then obtain h where "h \<in># add_mset f G" "examines m h"
        using snd m prem by (auto simp: sound_def progress_ok_def pending_atomic_sub)
      then show ?thesis using False ex_f by auto
    qed
  qed
  moreover have "calls_ok (atomic_sub_pending ops n) (add_mset g G) tr"
    using snd by (simp add: sound_def calls_ok_def st)
  moreover have "events_ok (atomic_sub_pending ops n) tr"
    using snd by (simp add: sound_def events_ok_def)
  ultimately show ?thesis
    using snd by (simp add: sound_def)
qed


lemma sound_claim:
  assumes snd: "sound ls ops (add_mset f G) tr"
    and f: "f = Schedule_node_claim n \<or> f = Chain_claim n"
    and n: "n < length ops" and free: "\<not> scheduled (ops ! n)"
    and h: "h = Schedule_children (outlinks (ops ! n)) \<and> \<not> evaluate (ops ! n) \<and> evs = []
          \<or> h = Task_entry n \<and> evaluate (ops ! n) \<and> evs = [Pushed n]
          \<or> h = Task_evaluate n \<and> evs = []"
  shows "sound ls (atomic_or_scheduled ops n) (add_mset h G) (tr @ evs)"
proof -
  have fok: "frame_ok ls ops f" using snd by (simp add: sound_def frames_ok_def)
  then have act: "in_update ls (ops ! n)" and zero: "num_links_pending (ops ! n) = 0"
    using f by auto
  have tv: "targets_valid ops" using snd by (simp add: sound_def)
  have owed_f: "owed ops m f = 0" and ex_f: "examines m f = (n = m)"
    and st_f: "to_start m f = 0" "to_complete m f = 0" for m
    using f by auto
  have owed_h: "owed ops m h = links_to m (outlinks (ops ! n))" for m
    using h by auto
  have st_h: "evaluate (ops ! n) \<Longrightarrow> to_start m h = (if m = n then 1 else 0)"
    "evaluate (ops ! n) \<Longrightarrow> to_complete m h = (if m = n then 1 else 0)"
    "m \<noteq> n \<Longrightarrow> to_start m h = 0" "m \<noteq> n \<Longrightarrow> to_complete m h = 0" for m
    using h by auto
  have evs: "evs = [] \<or> evs = [Pushed n] \<and> evaluate (ops ! n)"
    using h by auto
  have "frame_ok ls (atomic_or_scheduled ops n) h"
    using h n act tv by (auto simp: scheduled_atomic_or targets_valid_def)
  then have "frames_ok ls (atomic_or_scheduled ops n) (add_mset h G)"
    using snd by (auto simp: sound_def frames_ok_def frame_ok_atomic_or)
  moreover have "claimed_ok ls (atomic_or_scheduled ops n)"
    using snd act zero by (auto simp: sound_def claimed_ok_def scheduled_atomic_or)
  moreover have "counters_ok ls (atomic_or_scheduled ops n) (add_mset h G)"
    unfolding counters_ok_def
  proof (intro allI impI)
    fix m assume "m < length (atomic_or_scheduled ops n)" and "in_update ls (atomic_or_scheduled ops n ! m)"
    then have "unat (num_links_pending (ops ! m))
        = waiting_parents ls ops m + (sum_mset (image_mset (owed ops m) G) + owed ops m f)"
      using snd by (simp add: sound_def counters_ok_def)
    then show "unat (num_links_pending (atomic_or_scheduled ops n ! m))
        = waiting_parents ls (atomic_or_scheduled ops n) m
          + sum_mset (image_mset (owed (atomic_or_scheduled ops n) m) (add_mset h G))"
      using waiting_parents_claim [OF n act free, of m] by (simp add: owed_f owed_h)
  qed
  moreover have "progress_ok ls (atomic_or_scheduled ops n) (add_mset h G)"
    unfolding progress_ok_def
  proof (intro allI impI)
    fix m assume m: "m < length (atomic_or_scheduled ops n)"
      and prem: "in_update ls (atomic_or_scheduled ops n ! m) \<and> \<not> scheduled (atomic_or_scheduled ops n ! m)
        \<and> num_links_pending (atomic_or_scheduled ops n ! m) = 0"
    then have ne: "m \<noteq> n" using n by (auto simp: scheduled_atomic_or)
    obtain g where "g \<in># add_mset f G" "examines m g"
      using snd m prem by (auto simp: sound_def progress_ok_def scheduled_atomic_or)
    then show "\<exists>g\<in>#add_mset h G. examines m g"
      using ne ex_f by auto
  qed
  moreover have "calls_ok (atomic_or_scheduled ops n) (add_mset h G) (tr @ evs)"
    unfolding calls_ok_def
  proof (intro allI impI)
    fix m assume m: "m < length (atomic_or_scheduled ops n)" and ev: "evaluate (atomic_or_scheduled ops n ! m)"
    have before: "count_list tr (Started m) + sum_mset (image_mset (to_start m) G)
          = (if scheduled (ops ! m) then 1 else 0)"
      "count_list tr (Completed m) + sum_mset (image_mset (to_complete m) G)
          = (if scheduled (ops ! m) then 1 else 0)"
      "count_list tr (Pushed m) \<le> (if scheduled (ops ! m) then 1 else 0)"
      using snd m ev by (simp_all add: sound_def calls_ok_def st_f)
    show "count_list (tr @ evs) (Started m) + sum_mset (image_mset (to_start m) (add_mset h G))
          = (if scheduled (atomic_or_scheduled ops n ! m) then 1 else 0) \<and>
        count_list (tr @ evs) (Completed m) + sum_mset (image_mset (to_complete m) (add_mset h G))
          = (if scheduled (atomic_or_scheduled ops n ! m) then 1 else 0) \<and>
        count_list (tr @ evs) (Pushed m) \<le> (if scheduled (atomic_or_scheduled ops n ! m) then 1 else 0)"
    proof (cases "m = n")
      case True
      then show ?thesis
        using before free ev n st_h(1,2) [of n] evs by (auto simp: scheduled_atomic_or)
    next
      case False
      then show ?thesis
        using before st_h(3,4) [OF False] evs by (auto simp: scheduled_atomic_or)
    qed
  qed
  moreover have "events_ok (atomic_or_scheduled ops n) (tr @ evs)"
    using snd evs n by (auto simp: sound_def events_ok_def)
  ultimately show ?thesis
    using tv by (simp add: sound_def)
qed

lemma sound_event:
  assumes snd: "sound ls ops (add_mset f G) tr"
    and fh: "f = Task_evaluate n \<and> h = Task_completed n \<and> ev = Started n
           \<or> f = Task_completed n \<and> h = Task_outlinks n \<and> ev = Completed n"
    and n: "n < length ops" and has: "evaluate (ops ! n)"
  shows "sound ls ops (add_mset h G) (tr @ [ev])"
proof -
  have fok: "frame_ok ls ops f" using snd by (simp add: sound_def frames_ok_def)
  have owed_fh: "owed ops m h = owed ops m f" and ex: "examines m f = False" "examines m h = False" for m
    using fh by auto
  have "frame_ok ls ops h" using fok fh has by auto
  then have "frames_ok ls ops (add_mset h G)"
    using snd by (auto simp: sound_def frames_ok_def)
  moreover have "counters_ok ls ops (add_mset h G)"
    using snd by (simp add: sound_def counters_ok_def owed_fh)
  moreover have "progress_ok ls ops (add_mset h G)"
    unfolding progress_ok_def
  proof (intro allI impI)
    fix m assume "m < length ops"
      and "in_update ls (ops ! m) \<and> \<not> scheduled (ops ! m) \<and> num_links_pending (ops ! m) = 0"
    then obtain g where "g \<in># add_mset f G" "examines m g"
      using snd by (auto simp: sound_def progress_ok_def)
    then show "\<exists>g\<in>#add_mset h G. examines m g"
      using ex by auto
  qed
  moreover have "calls_ok ops (add_mset h G) (tr @ [ev])"
    unfolding calls_ok_def
  proof (intro allI impI)
    fix m assume m: "m < length ops" and ev: "evaluate (ops ! m)"
    have before: "count_list tr (Started m) + (sum_mset (image_mset (to_start m) G) + to_start m f)
          = (if scheduled (ops ! m) then 1 else 0)"
      "count_list tr (Completed m) + (sum_mset (image_mset (to_complete m) G) + to_complete m f)
          = (if scheduled (ops ! m) then 1 else 0)"
      "count_list tr (Pushed m) \<le> (if scheduled (ops ! m) then 1 else 0)"
      using snd m ev by (simp_all add: sound_def calls_ok_def add.commute)
    from fh show "count_list (tr @ [ev]) (Started m) + sum_mset (image_mset (to_start m) (add_mset h G))
          = (if scheduled (ops ! m) then 1 else 0) \<and>
        count_list (tr @ [ev]) (Completed m) + sum_mset (image_mset (to_complete m) (add_mset h G))
          = (if scheduled (ops ! m) then 1 else 0) \<and>
        count_list (tr @ [ev]) (Pushed m) \<le> (if scheduled (ops ! m) then 1 else 0)"
      using before by (auto split: if_splits)
  qed
  moreover have "events_ok ops (tr @ [ev])"
    using snd fh n has by (auto simp: sound_def events_ok_def)
  ultimately show ?thesis
    using snd by (simp add: sound_def)
qed

text \<open>No frame aborts a sound pass, and the pass stays sound.\<close>

lemma sound_exec:
  assumes snd: "sound ls ops (add_mset f G) tr"
  shows "\<not> e_abort (exec_frame ls ops f) \<and>
    sound ls (e_nodes (exec_frame ls ops f))
      (G + mset (e_frames (exec_frame ls ops f)) + mset (map Task_entry (e_pushed (exec_frame ls ops f))))
      (tr @ e_events (exec_frame ls ops f))"
proof -
  have ok: "frame_ok ls ops f" and tv: "targets_valid ops"
    using snd by (simp_all add: sound_def frames_ok_def)
  from ok tv show ?thesis
  proof (cases rule: exec_frame_kinds)
    case (underflow n)
    have "counters_ok ls ops (add_mset f G)"
      using snd by (simp add: sound_def)
    then have "unat (num_links_pending (ops ! n))
        = waiting_parents ls ops n + (sum_mset (image_mset (owed ops n) G) + owed ops n f)"
      using underflow(2,3) by (simp add: counters_ok_def)
    moreover have "owed ops n f = 1" using underflow(1) by auto
    ultimately show ?thesis using underflow(4) by simp
  next
    case (local fs)
    then show ?thesis using sound_local [OF snd local(2)] by (simp add: proceed_def)
  next
    case (decrement n g)
    then show ?thesis
      using sound_decrement [OF snd decrement(1,2,3,4)] by (simp add: proceed_def)
  next
    case (claim_noop n)
    then show ?thesis
      using sound_claim [OF snd _ claim_noop(2,3), of "Schedule_children (outlinks (ops ! n))" "[]"]
      by (simp add: proceed_def)
  next
    case (claim_push n)
    then show ?thesis
      using sound_claim [OF snd _ claim_push(2,3), of "Task_entry n" "[Pushed n]"]
      by simp
  next
    case (claim_chain n)
    then show ?thesis
      using sound_claim [OF snd _ claim_chain(2,3), of "Task_evaluate n" "[]"]
      by (simp add: proceed_def)
  next
    case (started n)
    then show ?thesis
      using sound_event [OF snd _ started(2,3), of "Task_completed n" "Started n"]
      by (simp add: emit_def)
  next
    case (completed n)
    moreover have "evaluate (ops ! n)" using ok completed(1) by simp
    ultimately show ?thesis
      using sound_event [OF snd _ completed(2), of "Task_outlinks n" "Completed n"]
      by (simp add: emit_def)
  qed
qed

section \<open>Graphs whose links fit together\<close>

text \<open>
  The scheduler relies on the graph builder for this: a relation listed among the outgoing
  relations of its source is listed as often among the incoming relations of its target,
  the ends of a relation are the nodes that list it, and every end is a node of the graph.
  The counter being a \<open>uint32_t\<close>, a node has fewer than \<open>2 ^ 32\<close> incoming relations.
\<close>

definition links_consistent :: "op_node list \<Rightarrow> bool" where
  "links_consistent ops \<longleftrightarrow>
     (\<forall>p<length ops. \<forall>rel\<in>set (outlinks (ops ! p)). rel_from rel = Operation p \<and> rel_to rel < length ops) \<and>
     (\<forall>n<length ops. \<forall>rel\<in>set (inlinks (ops ! n)).
        rel_to rel = n \<and> (\<forall>p. rel_from rel = Operation p \<longrightarrow> p < length ops)) \<and>
     (\<forall>n<length ops. \<forall>p<length ops. \<forall>c.
        count_list (inlinks (ops ! n)) \<lparr>rel_from = Operation p, rel_to = n, cyclic = c\<rparr>
        = count_list (outlinks (ops ! p)) \<lparr>rel_from = Operation p, rel_to = n, cyclic = c\<rparr>) \<and>
     (\<forall>n<length ops. length (inlinks (ops ! n)) < 2 ^ 32)"

text \<open>The nodes of a pass are those of the graph, up to the two fields the scheduler writes.\<close>

definition same_graph :: "op_node list \<Rightarrow> op_node list \<Rightarrow> bool" where
  "same_graph ops ops' \<longleftrightarrow>
     length ops' = length ops \<and>
     (\<forall>m<length ops. needs_update (ops' ! m) = needs_update (ops ! m) \<and> owner_layers (ops' ! m) = owner_layers (ops ! m) \<and>
          evaluate (ops' ! m) = evaluate (ops ! m) \<and> inlinks (ops' ! m) = inlinks (ops ! m) \<and>
          outlinks (ops' ! m) = outlinks (ops ! m))"

lemma exec_nodes_cases:
  "e_nodes (exec_frame ls ops f) = ops \<or>
   (\<exists>n. e_nodes (exec_frame ls ops f) = atomic_sub_pending ops n) \<or>
   (\<exists>n. e_nodes (exec_frame ls ops f) = atomic_or_scheduled ops n)"
  by (cases f)
    (auto simp: exec_frame_def assert_fail_def proceed_def emit_def schedule_graph_def
      schedule_node_def schedule_node_read_def schedule_node_claim_def schedule_children_def
      deg_task_run_func_def task_evaluate_def task_completed_def task_outlinks_def chain_sub_def
      chain_read_def chain_claim_def Let_def split: list.splits)

lemma same_graph_atomic:
  assumes "same_graph ops ops'"
  shows "same_graph ops (atomic_sub_pending ops' n)" "same_graph ops (atomic_or_scheduled ops' n)"
  using assms by (simp_all add: same_graph_def)

lemma same_graph_exec:
  "same_graph ops ops' \<Longrightarrow> same_graph ops (e_nodes (exec_frame ls ops' f))"
  using exec_nodes_cases [of ls ops' f] by (auto simp: same_graph_atomic)

lemma same_graph_length: "same_graph ops ops' \<Longrightarrow> length ops' = length ops"
  by (simp add: same_graph_def)

lemma same_graph_fields:
  assumes "same_graph ops ops'" and "m < length ops"
  shows "in_update ls (ops' ! m) = in_update ls (ops ! m)"
    "evaluate (ops' ! m) = evaluate (ops ! m)" "outlinks (ops' ! m) = outlinks (ops ! m)"
    "inlinks (ops' ! m) = inlinks (ops ! m)"
  using assms by (simp_all add: same_graph_def in_update_def)

lemma count_filter_image:
  assumes "finite S" and "inj_on R S"
  shows "length (filter (\<lambda>x. \<exists>p\<in>S. x = R p) xs) = (\<Sum>p\<in>S. count_list xs (R p))"
proof (induction xs)
  case Nil
  then show ?case by simp
next
  case (Cons x xs)
  show ?case
  proof (cases "\<exists>p\<in>S. x = R p")
    case True
    then obtain q where q: "q \<in> S" "x = R q" by blast
    have "(\<Sum>p\<in>S. count_list (x # xs) (R p)) = (\<Sum>p\<in>S. count_list xs (R p) + (if p = q then 1 else 0))"
      using q assms(2) by (intro sum.cong) (auto dest: inj_onD)
    also have "\<dots> = (\<Sum>p\<in>S. count_list xs (R p)) + 1"
      using assms(1) q(1) by (simp add: sum.distrib)
    finally show ?thesis using True Cons.IH by simp
  next
    case False
    then have "(\<Sum>p\<in>S. count_list (x # xs) (R p)) = (\<Sum>p\<in>S. count_list xs (R p))"
      by (intro sum.cong) auto
    then show ?thesis using False Cons.IH by simp
  qed
qed

lemma relation_eq:
  "rel = \<lparr>rel_from = a, rel_to = b, cyclic = c\<rparr> \<longleftrightarrow> rel_from rel = a \<and> rel_to rel = b \<and> cyclic rel = c"
  by (cases rel) simp

lemma lc_out:
  "links_consistent ops \<Longrightarrow> p < length ops \<Longrightarrow> rel \<in> set (outlinks (ops ! p)) \<Longrightarrow>
   rel_from rel = Operation p \<and> rel_to rel < length ops"
  unfolding links_consistent_def by blast

lemma lc_in:
  "links_consistent ops \<Longrightarrow> n < length ops \<Longrightarrow> rel \<in> set (inlinks (ops ! n)) \<Longrightarrow>
   rel_to rel = n \<and> (\<forall>p. rel_from rel = Operation p \<longrightarrow> p < length ops)"
  unfolding links_consistent_def by blast

lemma lc_count:
  "links_consistent ops \<Longrightarrow> n < length ops \<Longrightarrow> p < length ops \<Longrightarrow>
   count_list (inlinks (ops ! n)) \<lparr>rel_from = Operation p, rel_to = n, cyclic = c\<rparr>
   = count_list (outlinks (ops ! p)) \<lparr>rel_from = Operation p, rel_to = n, cyclic = c\<rparr>"
  unfolding links_consistent_def by blast

lemma lc_few:
  "links_consistent ops \<Longrightarrow> n < length ops \<Longrightarrow> length (inlinks (ops ! n)) < 2 ^ 32"
  unfolding links_consistent_def by blast

lemma pending_count_consistent:
  assumes lc: "links_consistent ops" and n: "n < length ops"
  shows "pending_count ls ops (ops ! n)
    = (\<Sum>p | p < length ops \<and> in_update ls (ops ! p). links_to n (outlinks (ops ! p)))"
proof -
  define S where "S = {p. p < length ops \<and> in_update ls (ops ! p)}"
  define R where "R = (\<lambda>p. \<lparr>rel_from = Operation p, rel_to = n, cyclic = False\<rparr>)"
  have fin: "finite S" by (simp add: S_def)
  have inj: "inj_on R S" by (simp add: inj_on_def R_def)
  have "counts_as_pending ls ops rel \<longleftrightarrow> (\<exists>p\<in>S. rel = R p)" if "rel \<in> set (inlinks (ops ! n))" for rel
  proof -
    have "rel_to rel = n" and "\<And>p. rel_from rel = Operation p \<Longrightarrow> p < length ops"
      using lc_in [OF lc n that] by auto
    then show ?thesis
    proof (cases "rel_from rel")
      case (Operation q)
      then have q: "q < length ops" by (rule \<open>\<And>p. rel_from rel = Operation p \<Longrightarrow> p < length ops\<close>)
      have "rel = R p \<longleftrightarrow> p = q \<and> \<not> cyclic rel" for p
        unfolding R_def relation_eq using Operation \<open>rel_to rel = n\<close> by auto
      then have "(\<exists>p\<in>S. rel = R p) \<longleftrightarrow> q \<in> S \<and> \<not> cyclic rel"
        by auto
      then show ?thesis
        using Operation q by (simp add: counts_as_pending_def S_def in_update_def conj_ac)
    next
      case Non_operation
      then have "rel \<noteq> R p" for p
        unfolding R_def relation_eq by simp
      then show ?thesis
        using Non_operation by (simp add: counts_as_pending_def)
    qed
  qed
  then have "filter (counts_as_pending ls ops) (inlinks (ops ! n))
      = filter (\<lambda>rel. \<exists>p\<in>S. rel = R p) (inlinks (ops ! n))"
    by (intro filter_cong) auto
  then have "pending_count ls ops (ops ! n) = (\<Sum>p\<in>S. count_list (inlinks (ops ! n)) (R p))"
    using count_filter_image [OF fin inj] by (simp add: pending_count_def)
  also have "\<dots> = (\<Sum>p\<in>S. links_to n (outlinks (ops ! p)))"
  proof (intro sum.cong refl)
    fix p assume "p \<in> S"
    then have p: "p < length ops" by (simp add: S_def)
    have "count_list (inlinks (ops ! n)) (R p) = count_list (outlinks (ops ! p)) (R p)"
      unfolding R_def by (rule lc_count [OF lc n p])
    moreover have "filter ((=) (R p)) (outlinks (ops ! p))
        = filter (\<lambda>rel. rel_to rel = n \<and> \<not> cyclic rel) (outlinks (ops ! p))"
    proof (intro filter_cong refl)
      fix rel assume "rel \<in> set (outlinks (ops ! p))"
      then have "rel_from rel = Operation p"
        using lc_out [OF lc p] by simp
      then show "(R p = rel) = (rel_to rel = n \<and> \<not> cyclic rel)"
        using relation_eq [of rel "Operation p" n False] by (auto simp: R_def)
    qed
    ultimately show "count_list (inlinks (ops ! n)) (R p) = links_to n (outlinks (ops ! p))"
      by (simp add: count_list_eq_length_filter links_to_def)
  qed
  finally show ?thesis by (simp add: S_def)
qed


lemma nth_prepared:
  "n < length ops \<Longrightarrow>
   clear_done_tags (calculate_pending_parents ls ops) ! n = (readied ls ops (ops ! n))\<lparr>done_tag := 0\<rparr>"
  by (simp add: clear_done_tags_def calculate_pending_parents_map)

lemma length_prepared [simp]: "length (clear_done_tags (calculate_pending_parents ls ops)) = length ops"
  by (simp add: clear_done_tags_def calculate_pending_parents_map)

lemma same_graph_prepared: "same_graph ops (clear_done_tags (calculate_pending_parents ls ops))"
  by (simp add: same_graph_def nth_prepared readied_def)

lemma same_graph_refl: "same_graph ops ops"
  by (simp add: same_graph_def)

lemma waiting_parents_same_graph:
  assumes "same_graph ops ops'"
  shows "waiting_parents ls ops' n
    = (\<Sum>p | p < length ops \<and> in_update ls (ops ! p) \<and> \<not> scheduled (ops' ! p). links_to n (outlinks (ops ! p)))"
proof -
  have "{p. p < length ops' \<and> in_update ls (ops' ! p) \<and> \<not> scheduled (ops' ! p)}
      = {p. p < length ops \<and> in_update ls (ops ! p) \<and> \<not> scheduled (ops' ! p)}"
    using assms by (auto simp: same_graph_length same_graph_fields)
  then show ?thesis
    unfolding waiting_parents_def
    using assms by (auto intro!: sum.cong simp: same_graph_fields)
qed

lemma sound_start:
  assumes lc: "links_consistent ops"
  shows "sound ls (clear_done_tags (calculate_pending_parents ls ops)) {#Schedule_graph [0..<length ops]#} []"
proof -
  define ops' where "ops' = clear_done_tags (calculate_pending_parents ls ops)"
  have sg: "same_graph ops ops'" unfolding ops'_def by (rule same_graph_prepared)
  have len: "length ops' = length ops" using sg by (rule same_graph_length)
  have unsched: "\<not> scheduled (ops' ! n)" if "n < length ops" for n
    using that by (simp add: ops'_def nth_prepared readied_def)
  have "targets_valid ops'"
    using lc_out [OF lc] sg by (auto simp: targets_valid_def len same_graph_fields)
  moreover have "frames_ok ls ops' {#Schedule_graph [0..<length ops]#}"
    by (simp add: frames_ok_def len)
  moreover have "claimed_ok ls ops'"
    using unsched by (simp add: claimed_ok_def len)
  moreover have "counters_ok ls ops' {#Schedule_graph [0..<length ops]#}"
    unfolding counters_ok_def
  proof (intro allI impI)
    fix n assume "n < length ops'" and "in_update ls (ops' ! n)"
    then have n: "n < length ops" and act: "in_update ls (ops ! n)"
      using sg by (simp_all add: len same_graph_fields)
    have "pending_count ls ops (ops ! n) \<le> length (inlinks (ops ! n))"
      by (simp add: pending_count_def)
    moreover have "length (inlinks (ops ! n)) < 2 ^ 32"
      using lc n by (rule lc_few)
    ultimately have "unat (of_nat (pending_count ls ops (ops ! n)) :: 32 word) = pending_count ls ops (ops ! n)"
      by (simp add: unat_of_nat)
    then have "unat (num_links_pending (ops' ! n)) = pending_count ls ops (ops ! n)"
      using n act by (simp add: ops'_def nth_prepared readied_def)
    moreover have "waiting_parents ls ops' n
        = (\<Sum>p | p < length ops \<and> in_update ls (ops ! p). links_to n (outlinks (ops ! p)))"
      unfolding waiting_parents_same_graph [OF sg]
      using unsched by (intro sum.cong) auto
    ultimately show "unat (num_links_pending (ops' ! n))
        = waiting_parents ls ops' n + sum_mset (image_mset (owed ops' n) {#Schedule_graph [0..<length ops]#})"
      using pending_count_consistent [OF lc n, of ls] by simp
  qed
  moreover have "progress_ok ls ops' {#Schedule_graph [0..<length ops]#}"
    by (simp add: progress_ok_def len)
  moreover have "calls_ok ops' {#Schedule_graph [0..<length ops]#} []"
    using unsched by (simp add: calls_ok_def len)
  moreover have "events_ok ops' []"
    by (simp add: events_ok_def)
  ultimately show ?thesis
    unfolding ops'_def sound_def by simp
qed

section \<open>Dependencies come first\<close>

text \<open>\<open>n\<close> waits for \<open>p\<close>: a relation from \<open>p\<close> to \<open>n\<close> takes part in the count of \<open>n\<close>.\<close>

definition waits_for :: "32 word \<Rightarrow> op_node list \<Rightarrow> nat \<Rightarrow> nat \<Rightarrow> bool" where
  "waits_for ls ops n p \<longleftrightarrow> p < length ops \<and> in_update ls (ops ! p) \<and> 0 < links_to n (outlinks (ops ! p))"

lemma counter_zero_dependencies_done:
  assumes snd: "sound ls ops F tr"
    and n: "n < length ops" "in_update ls (ops ! n)" "num_links_pending (ops ! n) = 0"
    and w: "waits_for ls ops n p"
  shows "scheduled (ops ! p) \<and> (evaluate (ops ! p) \<longrightarrow> count_list tr (Completed p) = 1)"
proof -
  have p: "p < length ops" "in_update ls (ops ! p)" "0 < links_to n (outlinks (ops ! p))"
    using w by (simp_all add: waits_for_def)
  have "counters_ok ls ops F" using snd by (simp add: sound_def)
  then have "unat (num_links_pending (ops ! n)) = waiting_parents ls ops n + sum_mset (image_mset (owed ops n) F)"
    using n(1,2) by (simp add: counters_ok_def)
  then have wp: "waiting_parents ls ops n = 0" and fr: "sum_mset (image_mset (owed ops n) F) = 0"
    using n(3) by simp_all
  have claimed: "scheduled (ops ! p)"
  proof (rule ccontr)
    assume "\<not> scheduled (ops ! p)"
    then have "p \<in> {p. p < length ops \<and> in_update ls (ops ! p) \<and> \<not> scheduled (ops ! p)}"
      using p by simp
    moreover have "\<forall>q\<in>{p. p < length ops \<and> in_update ls (ops ! p) \<and> \<not> scheduled (ops ! p)}.
        links_to n (outlinks (ops ! q)) = 0"
      using wp unfolding waiting_parents_def by (subst (asm) sum_eq_0_iff) simp_all
    ultimately show False using p(3) by simp
  qed
  have "count_list tr (Completed p) = 1" if ev: "evaluate (ops ! p)"
  proof -
    have no: "owed ops n f = 0" if "f \<in># F" for f
      using fr that by simp
    have "to_complete p f = 0" if "f \<in># F" for f
    proof (rule ccontr)
      assume "to_complete p f \<noteq> 0"
      then have "f = Task_entry p \<or> f = Task_evaluate p \<or> f = Task_completed p"
        by (cases f) (auto split: if_splits)
      then have "owed ops n f = links_to n (outlinks (ops ! p))" by auto
      then show False using no [OF that] p(3) by simp
    qed
    then have none: "sum_mset (image_mset (to_complete p) F) = 0" by simp
    have "calls_ok ops F tr" using snd by (simp add: sound_def)
    then have "count_list tr (Completed p) + sum_mset (image_mset (to_complete p) F) = 1"
      using p(1) ev claimed by (auto simp: calls_ok_def)
    then show ?thesis using none by linarith
  qed
  then show ?thesis using claimed by simp
qed

definition ordered :: "32 word \<Rightarrow> op_node list \<Rightarrow> event list \<Rightarrow> bool" where
  "ordered ls ops tr \<longleftrightarrow>
     (\<forall>i<length tr. \<forall>n p. (tr ! i = Pushed n \<or> tr ! i = Started n) \<and> waits_for ls ops n p \<and> evaluate (ops ! p)
        \<longrightarrow> Completed p \<in> set (take i tr))"

lemma ordered_append:
  assumes "ordered ls ops tr"
    and "\<And>n p. ev = Pushed n \<or> ev = Started n \<Longrightarrow> waits_for ls ops n p \<Longrightarrow> evaluate (ops ! p)
      \<Longrightarrow> Completed p \<in> set tr"
  shows "ordered ls ops (tr @ [ev])"
  unfolding ordered_def
proof (intro allI impI)
  fix i n p
  assume i: "i < length (tr @ [ev])"
    and h: "((tr @ [ev]) ! i = Pushed n \<or> (tr @ [ev]) ! i = Started n) \<and> waits_for ls ops n p \<and> evaluate (ops ! p)"
  show "Completed p \<in> set (take i (tr @ [ev]))"
  proof (cases "i < length tr")
    case True
    then have "(tr ! i = Pushed n \<or> tr ! i = Started n) \<and> waits_for ls ops n p \<and> evaluate (ops ! p)"
      using h by (simp add: nth_append)
    then have "Completed p \<in> set (take i tr)"
      using assms(1) True unfolding ordered_def by blast
    then show ?thesis using True by simp
  next
    case False
    then have "i = length tr" using i by simp
    then show ?thesis
      using assms(2) [of n p] h by simp
  qed
qed

lemma waits_for_same_graph:
  "same_graph ops ops' \<Longrightarrow> waits_for ls ops' n p = waits_for ls ops n p"
  by (auto simp: waits_for_def same_graph_length same_graph_fields)

text \<open>The events of a step, and what is known when they happen.\<close>

lemma events_exec:
  assumes snd: "sound ls ops (add_mset f G) tr"
  shows "e_events (exec_frame ls ops f) = [] \<or>
    (\<exists>n. e_events (exec_frame ls ops f) = [Completed n]) \<or>
    (\<exists>n. (e_events (exec_frame ls ops f) = [Pushed n] \<or> e_events (exec_frame ls ops f) = [Started n]) \<and>
       n < length ops \<and> in_update ls (ops ! n) \<and> num_links_pending (ops ! n) = 0)"
proof -
  have ok: "frame_ok ls ops f" and tv: "targets_valid ops" and cl: "claimed_ok ls ops"
    using snd by (simp_all add: sound_def frames_ok_def)
  from ok tv show ?thesis
  proof (cases rule: exec_frame_kinds)
    case (underflow n)
    then show ?thesis
      using sound_exec [OF snd]
      by (auto simp: exec_frame_def schedule_node_def chain_sub_def assert_fail_def in_update_def Let_def)
  next
    case (claim_push n)
    then show ?thesis using ok by auto
  next
    case (started n)
    then show ?thesis using ok cl by (auto simp: emit_def claimed_ok_def)
  qed (simp_all add: proceed_def emit_def)
qed

section \<open>The invariant along a pass\<close>

definition pass_inv :: "op_node list \<Rightarrow> eval_state \<Rightarrow> bool" where
  "pass_inv ops s \<longleftrightarrow>
     \<not> aborted s \<and> same_graph ops (nodes s) \<and> sound (layers s) (nodes s) (frames s) (trace s) \<and>
     ordered (layers s) ops (trace s)"

lemma layers_step [simp]: "layers (step s i) = layers s"
  by (simp add: step_def Let_def)

lemma pass_inv_step:
  assumes inv: "pass_inv ops s" and en: "enabled s i"
  shows "pass_inv ops (step s i)"
proof -
  obtain f rest where top: "tasks s ! i = f # rest"
    using enabled_top [OF en] by blast
  define e where "e = exec_frame (layers s) (nodes s) f"
  obtain G where G: "frames s = add_mset f G"
    and G': "frames (step s i) = G + mset (e_frames e) + mset (map Task_entry (e_pushed e))"
    using frames_step [OF en top] unfolding e_def by blast
  have st: "nodes (step s i) = e_nodes e" "trace (step s i) = trace s @ e_events e"
    "aborted (step s i) = e_abort e"
    unfolding step_unfold [OF en top] e_def by simp_all
  have sg: "same_graph ops (nodes s)" and ord: "ordered (layers s) ops (trace s)"
    and snd: "sound (layers s) (nodes s) (add_mset f G) (trace s)"
    using inv G by (simp_all add: pass_inv_def)
  have 1: "\<not> e_abort e" and 2: "sound (layers s) (e_nodes e)
      (G + mset (e_frames e) + mset (map Task_entry (e_pushed e))) (trace s @ e_events e)"
    using sound_exec [OF snd] unfolding e_def by simp_all
  have 3: "same_graph ops (e_nodes e)"
    unfolding e_def using sg by (rule same_graph_exec)
  have 4: "ordered (layers s) ops (trace s @ e_events e)"
  proof -
    from events_exec [OF snd]
    consider "e_events e = []" | n where "e_events e = [Completed n]"
      | n ev where "e_events e = [ev]" "ev = Pushed n \<or> ev = Started n" "n < length (nodes s)"
          "in_update (layers s) (nodes s ! n)" "num_links_pending (nodes s ! n) = 0"
      unfolding e_def by blast
    then show ?thesis
    proof cases
      case 1
      then show ?thesis using ord by simp
    next
      case 2
      then show ?thesis using ordered_append [OF ord, of "Completed n"] by simp
    next
      case 3
      have "Completed p \<in> set (trace s)"
        if "ev = Pushed m \<or> ev = Started m" "waits_for (layers s) ops m p" "evaluate (ops ! p)" for m p
      proof -
        have "m = n" using that(1) 3(2) by auto
        have w: "waits_for (layers s) (nodes s) n p"
          using that(2) \<open>m = n\<close> by (simp add: waits_for_same_graph [OF sg])
        then have "p < length ops" by (simp add: waits_for_def same_graph_length [OF sg])
        then have "evaluate (nodes s ! p)"
          using that(3) by (simp add: same_graph_fields [OF sg])
        then have "count_list (trace s) (Completed p) = 1"
          using counter_zero_dependencies_done [OF snd 3(3,4,5) w] by simp
        then show ?thesis
          by (metis count_list_0_iff zero_neq_one)
      qed
      then show ?thesis
        using ordered_append [OF ord, of ev] 3(1) by simp
    qed
  qed
  show ?thesis
    unfolding pass_inv_def using 1 2 3 4 by (simp add: st G')
qed

lemma pass_inv_reach:
  assumes "s \<in> reach s0" and "pass_inv ops s0"
  shows "pass_inv ops s \<and> layers s = layers s0"
  using assms by (induction rule: reach.induct) (simp_all add: pass_inv_step)

lemma frames_pass_start: "frames (pass_start ls ops) = {#Schedule_graph [0..<length ops]#}"
  by (simp add: frames_def pass_start_def schedule_start_def)

lemma pass_inv_start:
  assumes "links_consistent ops"
  shows "pass_inv ops (pass_start ls ops)"
proof -
  have "sound ls (clear_done_tags (calculate_pending_parents ls ops)) (frames (pass_start ls ops)) []"
    unfolding frames_pass_start using assms by (rule sound_start)
  then show ?thesis
    by (simp add: pass_inv_def pass_start_def schedule_start_def same_graph_prepared ordered_def
        frames_def)
qed

section \<open>Every node that can run is claimed\<close>

definition counted_edges :: "32 word \<Rightarrow> op_node list \<Rightarrow> (nat \<times> nat) set" where
  "counted_edges ls ops = {(p, n). n < length ops \<and> in_update ls (ops ! n) \<and> waits_for ls ops n p}"

lemma counted_edges_same_graph:
  "same_graph ops ops' \<Longrightarrow> counted_edges ls ops' = counted_edges ls ops"
  by (auto simp: counted_edges_def waits_for_same_graph same_graph_length same_graph_fields)

lemma drained_all_claimed:
  assumes snd: "sound ls ops {#} tr" and ac: "acyclic (counted_edges ls ops)"
    and n: "n < length ops" "in_update ls (ops ! n)"
  shows "scheduled (ops ! n)"
proof (rule ccontr)
  assume free: "\<not> scheduled (ops ! n)"
  define U where "U = {m. m < length ops \<and> in_update ls (ops ! m) \<and> \<not> scheduled (ops ! m)}"
  have "counted_edges ls ops \<subseteq> {..<length ops} \<times> {..<length ops}"
    by (auto simp: counted_edges_def waits_for_def)
  then have "finite (counted_edges ls ops)"
    by (rule finite_subset) simp
  then have "wf (counted_edges ls ops)"
    using ac by (rule finite_acyclic_wf)
  moreover have "n \<in> U" using n free by (simp add: U_def)
  ultimately obtain z where z: "z \<in> U" and least: "\<And>y. (y, z) \<in> counted_edges ls ops \<Longrightarrow> y \<notin> U"
    by (rule wfE_min) blast
  have zf: "z < length ops" "in_update ls (ops ! z)" "\<not> scheduled (ops ! z)"
    using z by (simp_all add: U_def)
  have "links_to z (outlinks (ops ! p)) = 0" if "p \<in> U" for p
  proof (rule ccontr)
    assume "links_to z (outlinks (ops ! p)) \<noteq> 0"
    then have "(p, z) \<in> counted_edges ls ops"
      using that zf by (simp add: counted_edges_def waits_for_def U_def)
    then show False using least that by blast
  qed
  then have "waiting_parents ls ops z = 0"
    by (simp add: waiting_parents_def U_def)
  moreover have "counters_ok ls ops {#}" using snd by (simp add: sound_def)
  ultimately have "unat (num_links_pending (ops ! z)) = 0"
    using zf by (simp add: counters_ok_def)
  then have "num_links_pending (ops ! z) = 0"
    by (simp add: unat_eq_0)
  moreover have "progress_ok ls ops {#}" using snd by (simp add: sound_def)
  ultimately show False
    using zf by (auto simp: progress_ok_def)
qed

lemma drained_frames: "drained s \<Longrightarrow> \<not> aborted s \<Longrightarrow> frames s = {#}"
  by (simp add: drained_def frames_def)

text \<open>The outcome of a pass over a graph whose counted relations have no cycle.\<close>

lemma pass_outcome:
  assumes lc: "links_consistent ops" and ac: "acyclic (counted_edges ls ops)"
    and r: "s \<in> reach (pass_start ls ops)" and d: "drained s" and n: "n < length ops"
  shows "\<not> aborted s \<and>
    scheduled (nodes s ! n) = in_update ls (ops ! n) \<and>
    count_list (trace s) (Started n) = (if in_update ls (ops ! n) \<and> evaluate (ops ! n) then 1 else 0) \<and>
    count_list (trace s) (Completed n) = (if in_update ls (ops ! n) \<and> evaluate (ops ! n) then 1 else 0) \<and>
    count_list (trace s) (Pushed n) \<le> 1"
proof -
  have inv: "pass_inv ops s" and ls: "layers s = ls"
    using pass_inv_reach [OF r pass_inv_start [OF lc]]
    by (simp_all add: pass_start_def schedule_start_def)
  then have na: "\<not> aborted s" and sg: "same_graph ops (nodes s)"
    and snd: "sound ls (nodes s) {#} (trace s)"
    using drained_frames [OF d] by (auto simp: pass_inv_def)
  have n': "n < length (nodes s)" using n by (simp add: same_graph_length [OF sg])
  have act: "in_update ls (nodes s ! n) = in_update ls (ops ! n)"
    and ev: "evaluate (nodes s ! n) = evaluate (ops ! n)"
    using n by (simp_all add: same_graph_fields [OF sg])
  have "acyclic (counted_edges ls (nodes s))"
    using ac by (simp add: counted_edges_same_graph [OF sg])
  then have "in_update ls (nodes s ! n) \<Longrightarrow> scheduled (nodes s ! n)"
    using drained_all_claimed [OF snd _ n'] by simp
  moreover have "scheduled (nodes s ! n) \<Longrightarrow> in_update ls (nodes s ! n)"
    using snd n' by (simp add: sound_def claimed_ok_def)
  ultimately have sch: "scheduled (nodes s ! n) = in_update ls (ops ! n)"
    using act by auto
  have calls: "calls_ok (nodes s) {#} (trace s)" and evs: "events_ok (nodes s) (trace s)"
    using snd by (simp_all add: sound_def)
  have counts: "count_list (trace s) (Started n) = (if in_update ls (ops ! n) \<and> evaluate (ops ! n) then 1 else 0)
      \<and> count_list (trace s) (Completed n) = (if in_update ls (ops ! n) \<and> evaluate (ops ! n) then 1 else 0)
      \<and> count_list (trace s) (Pushed n) \<le> 1"
  proof (cases "evaluate (ops ! n)")
    case True
    then show ?thesis
      using calls n' ev sch by (auto simp: calls_ok_def)
  next
    case False
    then have "Started n \<notin> set (trace s)" "Completed n \<notin> set (trace s)" "Pushed n \<notin> set (trace s)"
      using evs ev by (auto simp: events_ok_def)
    then show ?thesis using False by simp
  qed
  show ?thesis using na sch counts by simp
qed

section \<open>Only nodes that need update within the mask are touched\<close>

text \<open>
  This part holds for every graph, consistent or not, and whether or not the pass is
  aborted: it only follows the tests the code makes.
\<close>

fun frame_live :: "32 word \<Rightarrow> op_node list \<Rightarrow> frame \<Rightarrow> bool" where
  "frame_live ls ops (Schedule_node_read n) = (n < length ops \<and> in_update ls (ops ! n))"
| "frame_live ls ops (Schedule_node_claim n) = (n < length ops \<and> in_update ls (ops ! n))"
| "frame_live ls ops (Task_entry n) = (n < length ops \<and> in_update ls (ops ! n) \<and> evaluate (ops ! n))"
| "frame_live ls ops (Task_evaluate n) = (n < length ops \<and> in_update ls (ops ! n))"
| "frame_live ls ops (Task_completed n) = (n < length ops \<and> in_update ls (ops ! n) \<and> evaluate (ops ! n))"
| "frame_live ls ops (Chain_sub n) = (n < length ops \<and> in_update ls (ops ! n))"
| "frame_live ls ops (Chain_read n) = (n < length ops \<and> in_update ls (ops ! n))"
| "frame_live ls ops (Chain_claim n) = (n < length ops \<and> in_update ls (ops ! n))"
| "frame_live ls ops _ = True"

definition live :: "32 word \<Rightarrow> op_node list \<Rightarrow> frame multiset \<Rightarrow> event list \<Rightarrow> bool" where
  "live ls ops F tr \<longleftrightarrow>
     (\<forall>f\<in>#F. frame_live ls ops f) \<and>
     (\<forall>n<length ops. scheduled (ops ! n) \<longrightarrow> in_update ls (ops ! n)) \<and>
     (\<forall>n. Started n \<in> set tr \<or> Completed n \<in> set tr \<or> Pushed n \<in> set tr
        \<longrightarrow> n < length ops \<and> in_update ls (ops ! n) \<and> evaluate (ops ! n))"

lemma frame_live_atomic [simp]:
  "frame_live ls (atomic_sub_pending ops n) f = frame_live ls ops f"
  "frame_live ls (atomic_or_scheduled ops n) f = frame_live ls ops f"
  by (cases f; simp)+

lemma live_exec:
  assumes "live ls ops (add_mset f G) tr"
  shows "live ls (e_nodes (exec_frame ls ops f))
      (G + mset (e_frames (exec_frame ls ops f)) + mset (map Task_entry (e_pushed (exec_frame ls ops f))))
      (tr @ e_events (exec_frame ls ops f))"
proof (cases "frame_valid ops f")
  case False
  then show ?thesis using assms by (simp add: exec_frame_def assert_fail_def live_def)
next
  case True
  show ?thesis
  proof (cases f)
    case (Schedule_graph ns)
    then show ?thesis using assms True
      by (auto simp: live_def exec_frame_def schedule_graph_def proceed_def split: list.splits)
  next
    case (Schedule_node n d)
    then show ?thesis using assms True
      by (auto simp: live_def exec_frame_def schedule_node_def proceed_def assert_fail_def Let_def in_update_def)
  next
    case (Schedule_node_read n)
    then show ?thesis using assms True
      by (auto simp: live_def exec_frame_def schedule_node_read_def proceed_def)
  next
    case (Schedule_node_claim n)
    then show ?thesis using assms True
      by (auto simp: live_def exec_frame_def schedule_node_claim_def proceed_def Let_def is_noop_def
          scheduled_atomic_or)
  next
    case (Schedule_children rels)
    then show ?thesis using assms True
      by (auto simp: live_def exec_frame_def schedule_children_def proceed_def split: list.splits)
  next
    case (Task_entry n)
    then show ?thesis using assms True
      by (auto simp: live_def exec_frame_def deg_task_run_func_def proceed_def assert_fail_def)
  next
    case (Task_evaluate n)
    then show ?thesis using assms True
      by (auto simp: live_def exec_frame_def task_evaluate_def proceed_def emit_def)
  next
    case (Task_completed n)
    then show ?thesis using assms True
      by (auto simp: live_def exec_frame_def task_completed_def emit_def)
  next
    case (Task_outlinks n)
    then show ?thesis using assms True
      by (auto simp: live_def exec_frame_def task_outlinks_def proceed_def Let_def in_update_def
          split: list.splits)
  next
    case (Chain_sub n)
    then show ?thesis using assms True
      by (auto simp: live_def exec_frame_def chain_sub_def proceed_def assert_fail_def)
  next
    case (Chain_read n)
    then show ?thesis using assms True
      by (auto simp: live_def exec_frame_def chain_read_def proceed_def)
  next
    case (Chain_claim n)
    then show ?thesis using assms True
      by (auto simp: live_def exec_frame_def chain_claim_def proceed_def Let_def scheduled_atomic_or)
  qed
qed

definition live_inv :: "op_node list \<Rightarrow> eval_state \<Rightarrow> bool" where
  "live_inv ops s \<longleftrightarrow> same_graph ops (nodes s) \<and> live (layers s) (nodes s) (frames s) (trace s)"

lemma live_inv_step:
  assumes inv: "live_inv ops s" and en: "enabled s i"
  shows "live_inv ops (step s i)"
proof -
  obtain f rest where top: "tasks s ! i = f # rest"
    using enabled_top [OF en] by blast
  define e where "e = exec_frame (layers s) (nodes s) f"
  obtain G where G: "frames s = add_mset f G"
    and G': "frames (step s i) = G + mset (e_frames e) + mset (map Task_entry (e_pushed e))"
    using frames_step [OF en top] unfolding e_def by blast
  have st: "nodes (step s i) = e_nodes e" "trace (step s i) = trace s @ e_events e"
    unfolding step_unfold [OF en top] e_def by simp_all
  have "live (layers s) (nodes s) (add_mset f G) (trace s)" and sg: "same_graph ops (nodes s)"
    using inv G by (simp_all add: live_inv_def)
  then have "live (layers s) (e_nodes e) (G + mset (e_frames e) + mset (map Task_entry (e_pushed e)))
      (trace s @ e_events e)"
    unfolding e_def by (intro live_exec)
  moreover have "same_graph ops (e_nodes e)"
    unfolding e_def using sg by (rule same_graph_exec)
  ultimately show ?thesis
    by (simp add: live_inv_def st G')
qed

lemma live_inv_start: "live_inv ops (pass_start ls ops)"
proof -
  have "\<not> scheduled (clear_done_tags (calculate_pending_parents ls ops) ! n)" if "n < length ops" for n
    using that by (simp add: nth_prepared readied_def)
  then show ?thesis
    by (simp add: live_inv_def live_def frames_def same_graph_prepared pass_start_def
        schedule_start_def)
qed

lemma live_inv_reach:
  assumes "s \<in> reach (pass_start ls ops)"
  shows "live_inv ops s \<and> layers s = ls"
  using assms
proof (induction rule: reach.induct)
  case reach_start
  then show ?case by (simp add: live_inv_start) (simp add: pass_start_def schedule_start_def)
next
  case (reach_step s i)
  then show ?case by (simp add: live_inv_step)
qed

section \<open>Conditions on the graph\<close>

text \<open>
  The tag set is what the driver tests before anything else: the graph builder tags a node
  before it marks it as needing update, so the set is empty only when no node needs update.
\<close>

definition tags_cover :: "depsgraph \<Rightarrow> bool" where
  "tags_cover graph \<longleftrightarrow>
     (entry_tags graph = {} \<longrightarrow> (\<forall>n<length (operations graph). \<not> needs_update (operations graph ! n)))"

text \<open>The conditions of \<open>links_consistent\<close> as a test that can be run on a given graph.\<close>

definition links_ok :: "op_node list \<Rightarrow> bool" where
  "links_ok ops \<longleftrightarrow>
     list_all (\<lambda>p. list_all (\<lambda>rel. rel_from rel = Operation p \<and> rel_to rel < length ops) (outlinks (ops ! p)))
       [0..<length ops] \<and>
     list_all (\<lambda>n. list_all (\<lambda>rel. rel_to rel = n \<and>
         (case rel_from rel of Operation p \<Rightarrow> p < length ops | Non_operation \<Rightarrow> True)) (inlinks (ops ! n)))
       [0..<length ops] \<and>
     list_all (\<lambda>n. list_all (\<lambda>p. list_all (\<lambda>c.
         count_list (inlinks (ops ! n)) \<lparr>rel_from = Operation p, rel_to = n, cyclic = c\<rparr>
         = count_list (outlinks (ops ! p)) \<lparr>rel_from = Operation p, rel_to = n, cyclic = c\<rparr>) [False, True])
       [0..<length ops]) [0..<length ops]"

lemma links_ok_consistent:
  assumes ok: "links_ok ops" and few: "\<forall>node\<in>set ops. length (inlinks node) < 2 ^ 32"
  shows "links_consistent ops"
proof -
  have 1: "rel_from rel = Operation p \<and> rel_to rel < length ops"
    if "p < length ops" "rel \<in> set (outlinks (ops ! p))" for p rel
    using ok that unfolding links_ok_def list_all_iff by simp
  have 2: "rel_to rel = n \<and> (\<forall>p. rel_from rel = Operation p \<longrightarrow> p < length ops)"
    if "n < length ops" "rel \<in> set (inlinks (ops ! n))" for n rel
  proof -
    have "rel_to rel = n \<and> (case rel_from rel of Operation p \<Rightarrow> p < length ops | Non_operation \<Rightarrow> True)"
      using ok that unfolding links_ok_def list_all_iff by simp
    then show ?thesis by (cases "rel_from rel") auto
  qed
  have 3: "count_list (inlinks (ops ! n)) \<lparr>rel_from = Operation p, rel_to = n, cyclic = c\<rparr>
      = count_list (outlinks (ops ! p)) \<lparr>rel_from = Operation p, rel_to = n, cyclic = c\<rparr>"
    if "n < length ops" "p < length ops" for n p c
  proof -
    have "\<forall>c\<in>set [False, True].
        count_list (inlinks (ops ! n)) \<lparr>rel_from = Operation p, rel_to = n, cyclic = c\<rparr>
        = count_list (outlinks (ops ! p)) \<lparr>rel_from = Operation p, rel_to = n, cyclic = c\<rparr>"
      using ok that unfolding links_ok_def list_all_iff by simp
    then show ?thesis by (cases c) simp_all
  qed
  have 4: "length (inlinks (ops ! n)) < 2 ^ 32" if "n < length ops" for n
    using few that by simp
  show ?thesis
    unfolding links_consistent_def using 1 2 3 4 by blast
qed

text \<open>
  The relations of the graph as pairs of a source and a target; a graph has no cycle when
  this relation has none. A depth that falls along every relation shows that.
\<close>

definition dependency_edges :: "op_node list \<Rightarrow> (nat \<times> nat) set" where
  "dependency_edges ops = {(p, rel_to rel) | p rel. p < length ops \<and> rel \<in> set (outlinks (ops ! p))}"

definition ranked :: "(nat \<Rightarrow> nat) \<Rightarrow> op_node list \<Rightarrow> bool" where
  "ranked depth ops \<longleftrightarrow>
     list_all (\<lambda>p. list_all (\<lambda>rel. depth (rel_to rel) < depth p) (outlinks (ops ! p))) [0..<length ops]"

lemma ranked_acyclic: "ranked depth ops \<Longrightarrow> acyclic (dependency_edges ops)"
  by (rule acyclicI_order [where f = depth]) (auto simp: ranked_def dependency_edges_def list_all_iff)

lemma links_to_pos: "0 < links_to n rels \<Longrightarrow> \<exists>rel\<in>set rels. rel_to rel = n \<and> \<not> cyclic rel"
  unfolding links_to_def by (metis (mono_tags, lifting) filter_False length_greater_0_conv)

lemma counted_edges_subset: "counted_edges ls ops \<subseteq> dependency_edges ops"
proof
  fix e assume "e \<in> counted_edges ls ops"
  then obtain p n where e: "e = (p, n)" and p: "p < length ops" and pos: "0 < links_to n (outlinks (ops ! p))"
    by (auto simp: counted_edges_def waits_for_def)
  from links_to_pos [OF pos] obtain rel where "rel \<in> set (outlinks (ops ! p))" "rel_to rel = n"
    by blast
  then show "e \<in> dependency_edges ops"
    using e p by (auto simp: dependency_edges_def)
qed

lemma drain_pass_start:
  "drain sched (pass_start ls ops) \<in> reach (pass_start ls ops)" "drained (drain sched (pass_start ls ops))"
  by (simp_all add: drain_reach reach_start drain_drained)

lemma driver_runs:
  assumes "entry_tags graph \<noteq> {}" and "time_source graph = Some ts"
  shows "DEG_evaluate_on_refresh_ex sched eval_ctx graph ls =
    (if aborted (drain sched (pass_start ls (operations graph))) then Inl Assertion_failed
     else Inr (eval_ctx\<lparr>ctime := cfra ts\<rparr>,
       DEG_graph_clear_tags (graph\<lparr>operations := nodes (drain sched (pass_start ls (operations graph)))\<rparr>),
       trace (drain sched (pass_start ls (operations graph)))))"
  using assms by (simp add: DEG_evaluate_on_refresh_ex_def Let_def)

lemma inlink_waits_for:
  assumes lc: "links_consistent ops" and n: "n < length ops"
    and rel: "rel \<in> set (inlinks (ops ! n))" "rel_from rel = Operation p" "\<not> cyclic rel"
    and act: "in_update ls (ops ! p)"
  shows "waits_for ls ops n p"
proof -
  have to: "rel_to rel = n" and p: "p < length ops"
    using lc_in [OF lc n rel(1)] rel(2) by auto
  then have eq: "rel = \<lparr>rel_from = Operation p, rel_to = n, cyclic = False\<rparr>"
    using rel by (simp add: relation_eq)
  then have "count_list (inlinks (ops ! n)) \<lparr>rel_from = Operation p, rel_to = n, cyclic = False\<rparr> \<noteq> 0"
    using rel(1) by (simp add: count_list_0_iff)
  then have "count_list (outlinks (ops ! p)) \<lparr>rel_from = Operation p, rel_to = n, cyclic = False\<rparr> \<noteq> 0"
    using lc_count [OF lc n p, of False] by simp
  then have "rel \<in> set (outlinks (ops ! p))"
    using eq by (simp add: count_list_0_iff)
  then have "rel \<in> set (filter (\<lambda>rel. rel_to rel = n \<and> \<not> cyclic rel) (outlinks (ops ! p)))"
    using to rel(3) by simp
  then have "0 < links_to n (outlinks (ops ! p))"
    unfolding links_to_def by (rule length_pos_if_in_set)
  then show ?thesis
    using p act by (simp add: waits_for_def)
qed

section \<open>Example graphs\<close>

definition mk_node :: "bool \<Rightarrow> 32 word \<Rightarrow> bool \<Rightarrow> relation list \<Rightarrow> relation list \<Rightarrow> op_node" where
  "mk_node upd ls ev ins outs =
     \<lparr>needs_update = upd, owner_layers = ls, evaluate = ev, inlinks = ins, outlinks = outs,
      num_links_pending = 0, scheduled = False, done_tag = 0\<rparr>"

definition link :: "nat \<Rightarrow> nat \<Rightarrow> relation" where
  "link p n = \<lparr>rel_from = Operation p, rel_to = n, cyclic = False\<rparr>"

definition cyclic_link :: "nat \<Rightarrow> nat \<Rightarrow> relation" where
  "cyclic_link p n = \<lparr>rel_from = Operation p, rel_to = n, cyclic = True\<rparr>"

text \<open>
  Three nodes on layer 1. Node 2 has four incoming relations: from node 0 (tagged), from
  node 1 (not tagged), from a time source, and a cyclic one from node 0; its counter and
  its flag hold stale values from an earlier pass.
\<close>

definition stale_ops :: "op_node list" where
  "stale_ops =
     [mk_node True 1 True [] [link 0 2, cyclic_link 0 2],
      mk_node False 1 True [] [link 1 2],
      (mk_node True 1 True
         [link 0 2, link 1 2, \<lparr>rel_from = Non_operation, rel_to = 2, cyclic = False\<rparr>, cyclic_link 0 2] [])
         \<lparr>num_links_pending := 9, scheduled := True\<rparr>]"

text \<open>Node 0, tagged and claimed, with one relation to node 1, which is not tagged.\<close>

definition idle_child_state :: eval_state where
  "idle_child_state =
     \<lparr>nodes = [(mk_node True 1 True [] [link 0 1])\<lparr>scheduled := True\<rparr>,
               (mk_node False 1 True [link 0 1] [])\<lparr>num_links_pending := 3\<rparr>],
      layers = 1, tasks = [[], [Task_outlinks 0]], trace = [Pushed 0, Started 0, Completed 0],
      aborted = False\<rparr>"

text \<open>A chain of four nodes, all tagged, on layer 1.\<close>

definition chain_ops :: "op_node list" where
  "chain_ops =
     [mk_node True 1 True [] [link 0 1],
      mk_node True 1 True [link 0 1] [link 1 2],
      mk_node True 1 True [link 1 2] [link 2 3],
      mk_node True 1 True [link 2 3] []]"

text \<open>A diamond whose node 2 is a NOOP.\<close>

definition diamond_ops :: "op_node list" where
  "diamond_ops =
     [mk_node True 1 True [] [link 0 1, link 0 2],
      mk_node True 1 True [link 0 1] [link 1 3],
      mk_node True 1 False [link 0 2] [link 2 3],
      mk_node True 1 True [link 1 3, link 2 3] []]"

definition diamond_graph :: depsgraph where
  "diamond_graph = \<lparr>operations = diamond_ops, entry_tags = {0}, time_source = Some \<lparr>cfra = 5\<rparr>, graph_layers = 1\<rparr>"

text \<open>
  Two nodes with a cyclic relation each way; a chain into a NOOP; a chain into a node on
  another layer; and the chain at the moment node 1 has just been started.
\<close>

definition cycle_ops :: "op_node list" where
  "cycle_ops =
     [mk_node True 1 True [cyclic_link 1 0] [cyclic_link 0 1],
      mk_node True 1 True [cyclic_link 0 1] [cyclic_link 1 0]]"

definition noop_chain_ops :: "op_node list" where
  "noop_chain_ops =
     [mk_node True 1 True [] [link 0 1],
      mk_node True 1 False [link 0 1] []]"

definition layered_ops :: "op_node list" where
  "layered_ops =
     [mk_node True 1 True [] [link 0 1],
      mk_node True 2 True [link 0 1] []]"

definition chain_started :: eval_state where
  "chain_started = run (replicate 4 0 @ replicate 8 1) (pass_start 1 chain_ops)"

section \<open>The claims\<close>

text \<open>
  C1. On a graph without cycles among its relations, one pass runs the work function of
  every node that needs update and whose owner is within the layer mask exactly once, and
  that of no other node, in whatever order the threads run. The graph is one the builder
  hands over: its links fit together, its time source exists, and its tag set is not empty
  when a node needs update.
\<close>

theorem tagged_nodes_run_once:
  assumes lc: "links_consistent (operations graph)"
    and ac: "acyclic (dependency_edges (operations graph))"
    and tags: "tags_cover graph" and ts: "time_source graph \<noteq> None"
    and n: "n < length (operations graph)"
  shows "\<exists>eval_ctx' graph' tr.
    DEG_evaluate_on_refresh_ex sched eval_ctx graph ls = Inr (eval_ctx', graph', tr) \<and>
    count_list tr (Started n) =
      (if needs_update (operations graph ! n) \<and> owner_layers (operations graph ! n) AND ls \<noteq> 0 \<and>
          evaluate (operations graph ! n) then 1 else 0) \<and>
    count_list tr (Completed n) =
      (if needs_update (operations graph ! n) \<and> owner_layers (operations graph ! n) AND ls \<noteq> 0 \<and>
          evaluate (operations graph ! n) then 1 else 0) \<and>
    count_list tr (Pushed n) \<le> 1"
proof (cases "entry_tags graph = {}")
  case True
  then have "\<not> needs_update (operations graph ! n)"
    using tags n by (simp add: tags_cover_def)
  then show ?thesis
    using True by (simp add: DEG_evaluate_on_refresh_ex_def)
next
  case False
  obtain src where src: "time_source graph = Some src" using ts by auto
  define s where "s = drain sched (pass_start ls (operations graph))"
  have "acyclic (counted_edges ls (operations graph))"
    using ac counted_edges_subset by (rule acyclic_subset)
  from pass_outcome [OF lc this drain_pass_start [of sched ls "operations graph"] n]
  have "\<not> aborted s"
    and "count_list (trace s) (Started n) =
      (if in_update ls (operations graph ! n) \<and> evaluate (operations graph ! n) then 1 else 0)"
    and "count_list (trace s) (Completed n) =
      (if in_update ls (operations graph ! n) \<and> evaluate (operations graph ! n) then 1 else 0)"
    and "count_list (trace s) (Pushed n) \<le> 1"
    unfolding s_def by simp_all
  then show ?thesis
    unfolding driver_runs [OF False src] s_def [symmetric]
    by (simp add: in_update_def)
qed

theorem tagged_nodes_run_once_witness:
  "links_consistent (operations diamond_graph) \<and> acyclic (dependency_edges (operations diamond_graph)) \<and>
   tags_cover diamond_graph \<and> time_source diamond_graph \<noteq> None \<and>
   (3::nat) < length (operations diamond_graph) \<and>
   (\<exists>eval_ctx' graph' tr.
      DEG_evaluate_on_refresh_ex [0, 1, 2, 1, 2] \<lparr>mode = 0, ctime = 0\<rparr> diamond_graph 1
        = Inr (eval_ctx', graph', tr) \<and>
      count_list tr (Started 3) = 1 \<and> count_list tr (Completed 3) = 1 \<and> count_list tr (Pushed 3) \<le> 1)"
proof -
  have ops: "operations diamond_graph = diamond_ops" by (simp add: diamond_graph_def)
  have lc: "links_consistent (operations diamond_graph)"
    unfolding ops
  proof (rule links_ok_consistent)
    show "links_ok diamond_ops" by code_simp
    show "\<forall>node\<in>set diamond_ops. length (inlinks node) < 2 ^ 32"
      by (simp add: diamond_ops_def mk_node_def)
  qed
  have ac: "acyclic (dependency_edges (operations diamond_graph))"
    unfolding ops by (rule ranked_acyclic [where depth = "\<lambda>n. 4 - n"]) code_simp
  have tags: "tags_cover diamond_graph" and ts: "time_source diamond_graph \<noteq> None"
    and n: "(3::nat) < length (operations diamond_graph)"
    by (simp_all add: tags_cover_def diamond_graph_def diamond_ops_def)
  have act: "needs_update (operations diamond_graph ! 3) \<and> owner_layers (operations diamond_graph ! 3) AND 1 \<noteq> 0
      \<and> evaluate (operations diamond_graph ! 3)"
    by (simp add: diamond_graph_def diamond_ops_def mk_node_def)
  show ?thesis
    using tagged_nodes_run_once [OF lc ac tags ts n, of "[0, 1, 2, 1, 2]" "\<lparr>mode = 0, ctime = 0\<rparr>" 1]
      lc ac tags ts n act
    by simp
qed

text \<open>
  C2. In every state a pass can reach, a node is pushed to the pool or has its work
  function started only after the work function of every dependency has returned, where a
  dependency is the source of a relation that is not cyclic and whose source needs update
  within the layer mask; and the node is claimed, or about to be claimed, only when its
  counter has reached zero and every such dependency has itself been claimed and, when it
  has a work function, has completed.
\<close>

theorem dependencies_complete_first:
  assumes lc: "links_consistent ops" and r: "s \<in> reach (pass_start ls ops)" and n: "n < length ops"
    and rel: "rel \<in> set (inlinks (ops ! n))" "rel_from rel = Operation p" "\<not> cyclic rel"
    and act: "needs_update (ops ! p) \<and> owner_layers (ops ! p) AND ls \<noteq> 0"
  shows "(\<forall>i<length (trace s). trace s ! i = Pushed n \<or> trace s ! i = Started n \<longrightarrow>
            evaluate (ops ! p) \<longrightarrow> Completed p \<in> set (take i (trace s))) \<and>
         (scheduled (nodes s ! n) \<or> Schedule_node_claim n \<in># frames s \<or> Chain_claim n \<in># frames s \<longrightarrow>
            num_links_pending (nodes s ! n) = 0 \<and> scheduled (nodes s ! p) \<and>
            (evaluate (ops ! p) \<longrightarrow> Completed p \<in> set (trace s)))"
proof -
  have inv: "pass_inv ops s" and ls: "layers s = ls"
    using pass_inv_reach [OF r pass_inv_start [OF lc]] by (simp_all add: pass_start_def schedule_start_def)
  then have sg: "same_graph ops (nodes s)" and snd: "sound ls (nodes s) (frames s) (trace s)"
    and ord: "ordered ls ops (trace s)"
    by (simp_all add: pass_inv_def)
  have w: "waits_for ls ops n p"
    using lc n rel act by (intro inlink_waits_for) (simp_all add: in_update_def)
  then have p: "p < length ops" by (simp add: waits_for_def)
  have n': "n < length (nodes s)" using n by (simp add: same_graph_length [OF sg])
  have 1: "\<forall>i<length (trace s). trace s ! i = Pushed n \<or> trace s ! i = Started n \<longrightarrow>
      evaluate (ops ! p) \<longrightarrow> Completed p \<in> set (take i (trace s))"
    using ord w unfolding ordered_def by blast
  have 2: "num_links_pending (nodes s ! n) = 0 \<and> scheduled (nodes s ! p) \<and>
      (evaluate (ops ! p) \<longrightarrow> Completed p \<in> set (trace s))"
    if "scheduled (nodes s ! n) \<or> Schedule_node_claim n \<in># frames s \<or> Chain_claim n \<in># frames s"
  proof -
    have "frame_ok ls (nodes s) (Schedule_node_claim n)" if "Schedule_node_claim n \<in># frames s"
      using snd that unfolding sound_def frames_ok_def by blast
    moreover have "frame_ok ls (nodes s) (Chain_claim n)" if "Chain_claim n \<in># frames s"
      using snd that unfolding sound_def frames_ok_def by blast
    moreover have "in_update ls (nodes s ! n) \<and> num_links_pending (nodes s ! n) = 0" if "scheduled (nodes s ! n)"
      using snd that n' unfolding sound_def claimed_ok_def by blast
    ultimately have z: "in_update ls (nodes s ! n)" "num_links_pending (nodes s ! n) = 0"
      using that by auto
    have "waits_for ls (nodes s) n p"
      using w by (simp add: waits_for_same_graph [OF sg])
    from counter_zero_dependencies_done [OF snd n' z this]
    have "scheduled (nodes s ! p)" and "evaluate (nodes s ! p) \<longrightarrow> count_list (trace s) (Completed p) = 1"
      by simp_all
    moreover have "evaluate (nodes s ! p) = evaluate (ops ! p)"
      using p by (simp add: same_graph_fields [OF sg])
    ultimately show ?thesis
      using z(2) by (metis count_list_0_iff zero_neq_one)
  qed
  show ?thesis using 1 2 by blast
qed

theorem dependencies_complete_first_witness:
  "links_consistent chain_ops \<and> chain_started \<in> reach (pass_start 1 chain_ops) \<and>
   (1::nat) < length chain_ops \<and> link 0 1 \<in> set (inlinks (chain_ops ! 1)) \<and>
   rel_from (link 0 1) = Operation 0 \<and> \<not> cyclic (link 0 1) \<and>
   (needs_update (chain_ops ! 0) \<and> owner_layers (chain_ops ! 0) AND 1 \<noteq> 0) \<and>
   trace chain_started ! 3 = Started 1 \<and> Completed 0 \<in> set (take 3 (trace chain_started)) \<and>
   scheduled (nodes chain_started ! 1) \<and> num_links_pending (nodes chain_started ! 1) = 0 \<and>
   scheduled (nodes chain_started ! 0) \<and> Completed 0 \<in> set (trace chain_started)"
proof -
  have lc: "links_consistent chain_ops"
  proof (rule links_ok_consistent)
    show "links_ok chain_ops" by code_simp
    show "\<forall>node\<in>set chain_ops. length (inlinks node) < 2 ^ 32"
      by (simp add: chain_ops_def mk_node_def)
  qed
  have r: "chain_started \<in> reach (pass_start 1 chain_ops)"
    unfolding chain_started_def by (rule run_reach [OF reach_start])
  have h: "(1::nat) < length chain_ops" "link 0 1 \<in> set (inlinks (chain_ops ! 1))"
    "rel_from (link 0 1) = Operation 0" "\<not> cyclic (link 0 1)"
    "needs_update (chain_ops ! 0) \<and> owner_layers (chain_ops ! 0) AND 1 \<noteq> 0"
    by (simp_all add: chain_ops_def mk_node_def link_def)
  have ev: "evaluate (chain_ops ! 0)" by (simp add: chain_ops_def mk_node_def)
  have tr: "trace chain_started = [Pushed 0, Started 0, Completed 0, Started 1]"
    and sch: "scheduled (nodes chain_started ! 1)"
    by code_simp+
  from dependencies_complete_first [OF lc r h]
  have 1: "\<forall>i<length (trace chain_started). trace chain_started ! i = Pushed 1 \<or> trace chain_started ! i = Started 1
        \<longrightarrow> evaluate (chain_ops ! 0) \<longrightarrow> Completed 0 \<in> set (take i (trace chain_started))"
    and 2: "scheduled (nodes chain_started ! 1) \<longrightarrow>
        num_links_pending (nodes chain_started ! 1) = 0 \<and> scheduled (nodes chain_started ! 0) \<and>
        (evaluate (chain_ops ! 0) \<longrightarrow> Completed 0 \<in> set (trace chain_started))"
    by blast+
  have "trace chain_started ! 3 = Started 1" "3 < length (trace chain_started)"
    by (simp_all add: tr)
  then have "Completed 0 \<in> set (take 3 (trace chain_started))"
    using 1 ev by blast
  then show ?thesis
    using lc r h 2 sch ev \<open>trace chain_started ! 3 = Started 1\<close> by simp
qed

text \<open>
  C3. After the readiness pre-pass, every operation node \<open>n\<close> has \<open>scheduled\<close> false, and its
  \<open>num_links_pending\<close> is the number of its incoming relations that are not cyclic and come
  from an operation node that needs update and whose owner is within the layer mask, when \<open>n\<close>
  itself needs update and is within the mask, and 0 otherwise. Running the calls of the
  pre-pass in any order of the indices (as the parallel range may) gives the result of the
  run in increasing order. The counter is a \<open>uint32_t\<close>: the count is read under the
  assumption that the node has fewer than \<open>2 ^ 32\<close> incoming relations.
\<close>

theorem calculate_pending_parents_result:
  assumes "n < length ops" and "length (inlinks (ops ! n)) < 2 ^ 32"
    and "set order = {0..<length ops}"
  shows "scheduled (calculate_pending_parents ls ops ! n) = False \<and>
    unat (num_links_pending (calculate_pending_parents ls ops ! n)) =
      (if needs_update (ops ! n) \<and> owner_layers (ops ! n) AND ls \<noteq> 0
       then length (filter (\<lambda>rel. \<not> cyclic rel \<and>
              (\<exists>p. rel_from rel = Operation p \<and> needs_update (ops ! p) \<and> owner_layers (ops ! p) AND ls \<noteq> 0))
              (inlinks (ops ! n)))
       else 0) \<and>
    calculate_pending_in_order order ls ops = calculate_pending_parents ls ops"
proof -
  have test: "counts_as_pending ls ops = (\<lambda>rel. \<not> cyclic rel \<and>
      (\<exists>p. rel_from rel = Operation p \<and> needs_update (ops ! p) \<and> owner_layers (ops ! p) AND ls \<noteq> 0))"
    by (rule ext) (auto simp: counts_as_pending_def split: depsnode.splits)
  have "pending_count ls ops (ops ! n) \<le> length (inlinks (ops ! n))"
    by (simp add: pending_count_def)
  then have "pending_count ls ops (ops ! n) < 2 ^ 32"
    using assms(2) by linarith
  then have "unat (of_nat (pending_count ls ops (ops ! n)) :: 32 word) = pending_count ls ops (ops ! n)"
    by (simp add: unat_of_nat)
  then have "unat (num_links_pending (calculate_pending_parents ls ops ! n)) =
      (if in_update ls (ops ! n) then pending_count ls ops (ops ! n) else 0)"
    using assms(1) by (simp add: calculate_pending_parents_map readied_def)
  moreover have "scheduled (calculate_pending_parents ls ops ! n) = False"
    using assms(1) by (simp add: calculate_pending_parents_map readied_def)
  moreover have "calculate_pending_in_order order ls ops = calculate_pending_parents ls ops"
    using assms(3) by (simp add: calculate_pending_parents_map calculate_pending_in_order_map)
  ultimately show ?thesis
    by (simp add: in_update_def pending_count_def test)
qed

theorem calculate_pending_parents_result_witness:
  "(2::nat) < length stale_ops \<and> length (inlinks (stale_ops ! 2)) < 2 ^ 32 \<and>
   set [2, 0, 1] = {0..<length stale_ops} \<and>
   scheduled (calculate_pending_parents 1 stale_ops ! 2) = False \<and>
   unat (num_links_pending (calculate_pending_parents 1 stale_ops ! 2)) = 1 \<and>
   calculate_pending_in_order [2, 0, 1] 1 stale_ops = calculate_pending_parents 1 stale_ops"
proof -
  have len: "(2::nat) < length stale_ops" and few: "length (inlinks (stale_ops ! 2)) < 2 ^ 32"
    by (simp_all add: stale_ops_def mk_node_def)
  have ord: "set [2, 0, 1] = {0..<length stale_ops}"
    by (auto simp: stale_ops_def)
  show ?thesis
    using calculate_pending_parents_result [OF len few ord, of 1] len few ord
    by (simp add: stale_ops_def mk_node_def link_def cyclic_link_def)
qed

text \<open>
  C8. When the tag set of the graph is empty, \<open>DEG_evaluate_on_refresh_ex\<close> returns at once:
  the context and the graph (every field of every node) come back as they were, and no
  event was produced, so no work function ran.
\<close>

theorem evaluate_without_tags_is_noop:
  "entry_tags graph = {} \<Longrightarrow>
   DEG_evaluate_on_refresh_ex sched eval_ctx graph ls = Inr (eval_ctx, graph, [])"
  by (simp add: DEG_evaluate_on_refresh_ex_def)

theorem evaluate_without_tags_is_noop_witness:
  "entry_tags \<lparr>operations = stale_ops, entry_tags = {}, time_source = None, graph_layers = 1\<rparr> = {} \<and>
   DEG_evaluate_on_refresh_ex [0, 1] \<lparr>mode = 0, ctime = 7\<rparr>
     \<lparr>operations = stale_ops, entry_tags = {}, time_source = None, graph_layers = 1\<rparr> 1
   = Inr (\<lparr>mode = 0, ctime = 7\<rparr>,
          \<lparr>operations = stale_ops, entry_tags = {}, time_source = None, graph_layers = 1\<rparr>, [])"
  using evaluate_without_tags_is_noop
    [of "\<lparr>operations = stale_ops, entry_tags = {}, time_source = None, graph_layers = 1\<rparr>"
      "[0, 1]" "\<lparr>mode = 0, ctime = 7\<rparr>" 1]
  by simp

text \<open>
  C9. The entry points use the time source without a null check. On a graph whose time
  source is missing, \<open>DEG_evaluate_on_refresh_ex\<close> dereferences null as soon as it is past
  the early exit for an empty tag set, and \<open>DEG_evaluate_on_refresh\<close> and
  \<open>DEG_evaluate_on_framechange\<close> do so on every call; with a time source present, no pass
  ends in that error.
\<close>

theorem time_source_must_exist:
  "(time_source graph = None \<longrightarrow>
      (entry_tags graph \<noteq> {} \<longrightarrow>
         DEG_evaluate_on_refresh_ex sched eval_ctx graph ls = Inl Null_time_source) \<and>
      DEG_evaluate_on_refresh sched eval_ctx graph scene_frame = Inl Null_time_source \<and>
      DEG_evaluate_on_framechange sched tag_update flush_updates eval_ctx graph new_time ls
        = Inl Null_time_source) \<and>
   (time_source graph \<noteq> None \<longrightarrow>
      DEG_evaluate_on_refresh_ex sched eval_ctx graph ls \<noteq> Inl Null_time_source \<and>
      DEG_evaluate_on_refresh sched eval_ctx graph scene_frame \<noteq> Inl Null_time_source)"
  by (auto simp: DEG_evaluate_on_refresh_ex_def DEG_evaluate_on_refresh_def
      DEG_evaluate_on_framechange_def Let_def split: option.splits)

theorem time_source_must_exist_witness:
  "time_source \<lparr>operations = stale_ops, entry_tags = {0}, time_source = None, graph_layers = 1\<rparr> = None \<and>
   entry_tags \<lparr>operations = stale_ops, entry_tags = {0}, time_source = None, graph_layers = 1\<rparr> \<noteq> {} \<and>
   DEG_evaluate_on_refresh_ex [] \<lparr>mode = 0, ctime = 7\<rparr>
     \<lparr>operations = stale_ops, entry_tags = {0}, time_source = None, graph_layers = 1\<rparr> 1
     = Inl Null_time_source \<and>
   DEG_evaluate_on_refresh [] \<lparr>mode = 0, ctime = 7\<rparr>
     \<lparr>operations = stale_ops, entry_tags = {0}, time_source = None, graph_layers = 1\<rparr> 2
     = Inl Null_time_source \<and>
   DEG_evaluate_on_framechange [] id id \<lparr>mode = 0, ctime = 7\<rparr>
     \<lparr>operations = stale_ops, entry_tags = {0}, time_source = None, graph_layers = 1\<rparr> 2 1
     = Inl Null_time_source"
  using time_source_must_exist
    [of "\<lparr>operations = stale_ops, entry_tags = {0}, time_source = None, graph_layers = 1\<rparr>"
      "[]" "\<lparr>mode = 0, ctime = 7\<rparr>" 1 2 id id 2]
  by simp

text \<open>
  C10. In the worker loop, when the node has a single outgoing relation and the child is
  not claimed but does not need update or lies outside the layer mask, the loop ends and
  nothing else changes: the child's counter is not decremented (whether or not the relation
  is cyclic), its flag is not set, nothing is pushed and no event is produced.
\<close>

theorem chain_stops_at_idle_child:
  assumes "enabled s i" and "tasks s ! i = Task_outlinks n # rest"
    and "n < length (nodes s)" and "outlinks (nodes s ! n) = [rel]" and "rel_to rel < length (nodes s)"
    and "\<not> scheduled (nodes s ! rel_to rel)"
    and "\<not> (needs_update (nodes s ! rel_to rel) \<and> owner_layers (nodes s ! rel_to rel) AND layers s \<noteq> 0)"
  shows "step s i = s\<lparr>tasks := (tasks s)[i := rest]\<rparr>"
  using assms
  by (simp add: step_def enabled_def exec_frame_def task_outlinks_def proceed_def Let_def)

theorem chain_stops_at_idle_child_witness:
  "enabled idle_child_state 1 \<and> tasks idle_child_state ! 1 = Task_outlinks 0 # [] \<and>
   0 < length (nodes idle_child_state) \<and> outlinks (nodes idle_child_state ! 0) = [link 0 1] \<and>
   rel_to (link 0 1) < length (nodes idle_child_state) \<and>
   \<not> scheduled (nodes idle_child_state ! rel_to (link 0 1)) \<and>
   \<not> (needs_update (nodes idle_child_state ! rel_to (link 0 1)) \<and>
      owner_layers (nodes idle_child_state ! rel_to (link 0 1)) AND layers idle_child_state \<noteq> 0) \<and>
   step idle_child_state 1 = idle_child_state\<lparr>tasks := [[], []]\<rparr> \<and>
   num_links_pending (nodes (step idle_child_state 1) ! 1) = 3"
proof -
  have h: "enabled idle_child_state 1" "tasks idle_child_state ! 1 = Task_outlinks 0 # []"
    "0 < length (nodes idle_child_state)" "outlinks (nodes idle_child_state ! 0) = [link 0 1]"
    "rel_to (link 0 1) < length (nodes idle_child_state)"
    "\<not> scheduled (nodes idle_child_state ! rel_to (link 0 1))"
    "\<not> (needs_update (nodes idle_child_state ! rel_to (link 0 1)) \<and>
      owner_layers (nodes idle_child_state ! rel_to (link 0 1)) AND layers idle_child_state \<noteq> 0)"
    by (simp_all add: idle_child_state_def enabled_def mk_node_def link_def)
  from chain_stops_at_idle_child [OF h]
  have "step idle_child_state 1 = idle_child_state\<lparr>tasks := [[], []]\<rparr>"
    by (simp add: idle_child_state_def)
  then show ?thesis
    using h by (simp add: idle_child_state_def mk_node_def)
qed

end
